theory Spec2Isabelle
  imports
    Complex_Main
    "HOL-Library.Char_ord"
    "HOL-Library.List_Lexorder"
    "HOL-Library.Product_Lexorder"
begin

section \<open>FidoAdapter: a shallow embedding of the protein-inference pipeline\<close>

text \<open>
  The development follows the class \<open>TOPPFidoAdapter\<close>. Its member functions
  \<open>writePSMGraph_\<close>, \<open>writeProteinLists_\<close>, \<open>runFido_\<close> and \<open>main_\<close> become the HOL
  functions \<open>writePSMGraph\<close>, \<open>writeProteinLists\<close>, \<open>runFido\<close> and \<open>main\<close> (a name cannot
  end with an underscore here). Conventions:
  \<^item> \<open>String\<close> is \<open>string\<close>; the order of \<open>std::string\<close> (bytewise, lexicographic) is the
    order of \<open>char list\<close> given by \<open>Char_ord\<close> and \<open>List_Lexorder\<close>;
  \<^item> \<open>std::set<String>\<close> is a strictly ascending list, \<open>std::map\<close> an association list with
    strictly ascending keys, so that iteration order is list order;
  \<^item> the \<open>double\<close> of a peptide score is a finite value or NaN (type \<open>double\<close> below); the
    arithmetic on finite values is exact, and infinities and rounding are left out. The
    probabilities that the engine prints and takes are \<open>real\<close>. The text form of a double
    in a file or on a command line is kept abstract;
  \<^item> \<open>Size\<close> counters are \<open>nat\<close> (no input has \<open>2^64\<close> hits);
  \<^item> a thrown exception, and the dereference of an \<open>end()\<close> iterator, is an error value;
  \<^item> files, log warnings and engine invocations are recorded in an explicit state.
\<close>

subsection \<open>Strings\<close>

text \<open>\<open>String(Size)\<close>: the decimal digits of a counter.\<close>

definition digit_char :: "nat \<Rightarrow> char" where
  "digit_char d = ''0123456789'' ! d"

function String_of_nat :: "nat \<Rightarrow> string" where
  "String_of_nat n =
     (if n < 10 then [digit_char n]
      else String_of_nat (n div 10) @ [digit_char (n mod 10)])"
  by pat_completeness auto
termination
  by (relation "measure (\<lambda>n. n)") auto

declare String_of_nat.simps [simp del]

text \<open>\<open>QString::number(int)\<close>.\<close>

definition String_of_int :: "int \<Rightarrow> string" where
  "String_of_int i =
     (if i < 0 then CHR ''-'' # String_of_nat (nat (- i)) else String_of_nat (nat i))"

text \<open>\<open>String::hasPrefix\<close>.\<close>

definition hasPrefix :: "string \<Rightarrow> string \<Rightarrow> bool" where
  "hasPrefix s p = (take (length p) s = p)"

text \<open>\<open>String::toLower\<close>: \<open>tolower\<close> on every byte (C locale).\<close>

definition tolower_char :: "char \<Rightarrow> char" where
  "tolower_char c =
     (case map_of (zip ''ABCDEFGHIJKLMNOPQRSTUVWXYZ'' ''abcdefghijklmnopqrstuvwxyz'') c of
        Some l \<Rightarrow> l
      | None \<Rightarrow> c)"

definition toLower :: "string \<Rightarrow> string" where
  "toLower s = map tolower_char s"

text \<open>
  \<open>it->find_first_of(" \t,{}")\<close> followed by \<open>it->substr(0, pos)\<close>: the prefix before the
  first of the five characters, the whole string when none occurs (\<open>pos = npos\<close>).
\<close>

definition unsafe_chars :: "char list" where
  "unsafe_chars = [CHR '' '', CHR 0x09, CHR '','', CHR ''{'', CHR ''}'']"

definition valid_prefix :: "string \<Rightarrow> string" where
  "valid_prefix s = takeWhile (\<lambda>c. c \<notin> set unsafe_chars) s"

text \<open>
  \<open>QString::replace(before, after)\<close> as used by \<open>QStringList::replaceInStrings\<close>:
  every occurrence of \<open>before\<close>, scanning from the left, occurrences not overlapping.
  Both placeholders of the adapter are non-empty; an empty pattern leaves the string as it is.
\<close>

function replace_all :: "string \<Rightarrow> string \<Rightarrow> string \<Rightarrow> string" where
  "replace_all before after [] = []"
| "replace_all before after (c # cs) =
     (if before \<noteq> [] \<and> take (length before) (c # cs) = before
      then after @ replace_all before after (drop (length before) (c # cs))
      else c # replace_all before after cs)"
  by pat_completeness auto
termination
  by (relation "measure (\<lambda>(before, after, s). length s)") auto

definition replaceInStrings :: "string \<Rightarrow> string \<Rightarrow> string list \<Rightarrow> string list" where
  "replaceInStrings before after params = map (replace_all before after) params"

text \<open>
  Modelled from the spec: \<open>String::split\<close> is declared outside the translated file. The text
  is cut at every separator and empty pieces are kept; an empty text has no piece.
\<close>

fun split_pieces :: "char \<Rightarrow> string \<Rightarrow> string list" where
  "split_pieces sep [] = [[]]"
| "split_pieces sep (c # cs) =
     (if c = sep then [] # split_pieces sep cs
      else (case split_pieces sep cs of
              [] \<Rightarrow> [[c]]
            | piece # pieces \<Rightarrow> (c # piece) # pieces))"

definition split :: "char \<Rightarrow> string \<Rightarrow> string list" where
  "split sep s = (if s = [] then [] else split_pieces sep s)"

definition newline :: char where
  "newline = CHR 0x0A"

text \<open>\<open>String::suffix(char)\<close>: what follows the last occurrence of the delimiter.\<close>

definition suffix_after :: "char \<Rightarrow> string \<Rightarrow> string" where
  "suffix_after delim s = rev (takeWhile (\<lambda>c. c \<noteq> delim) (rev s))"

text \<open>
  \<open>stream >> word\<close> on a \<open>std::istringstream\<close>, the stream given by its unread text:
  leading white space is skipped and the characters up to the next white space are taken.
  \<open>None\<close> is the failed extraction, at the end of the text; it leaves the target variable
  as it was.
\<close>

definition isspace :: "char \<Rightarrow> bool" where
  "isspace c = (c \<in> set [CHR '' '', CHR 0x09, CHR 0x0A, CHR 0x0B, CHR 0x0C, CHR 0x0D])"

definition extract_word :: "string \<Rightarrow> (string \<times> string) option" where
  "extract_word unread =
     (let r = dropWhile isspace unread
      in if r = [] then None
         else Some (takeWhile (\<lambda>c. \<not> isspace c) r, dropWhile (\<lambda>c. \<not> isspace c) r))"

subsection \<open>Identification data\<close>

text \<open>
  The identification classes are declared outside the translated file; the records keep the
  fields that \<open>TOPPFidoAdapter\<close> reads or writes. Meta values of a peptide hit are the
  numeric ones (the configured \<open>prob_param\<close> is read as a double); the \<open>target_decoy\<close> meta
  value of a protein hit is \<open>None\<close> when absent.
\<close>

text \<open>
  A peptide score: a finite value or NaN. A comparison with NaN is false, an arithmetic
  operation on NaN gives NaN.
\<close>

datatype double = Finite real | NaN

fun double_less :: "double \<Rightarrow> double \<Rightarrow> bool" where
  "double_less (Finite x) (Finite y) = (x < y)"
| "double_less a b = False"

fun double_minus :: "double \<Rightarrow> double \<Rightarrow> double" where
  "double_minus (Finite x) (Finite y) = Finite (x - y)"
| "double_minus a b = NaN"

record PeptideHit =
  sequence :: string
  score :: double
  peptide_evidences :: "string list"
  meta_values :: "(string \<times> double) list"

record PeptideIdentification =
  pep_identifier :: string
  pep_hits :: "PeptideHit list"
  higher_score_better :: bool
  score_type :: string

record ProteinHit =
  accession :: string
  target_decoy :: "string option"
  prot_score :: real

record ProteinGroup =
  probability :: real
  accessions :: "string list"

record ProteinIdentification =
  prot_identifier :: string
  hits :: "ProteinHit list"
  search_engine :: string
  prot_score_type :: string
  prot_higher_score_better :: bool
  indistinguishable_proteins :: "ProteinGroup list"
  fido_meta :: "(real \<times> real \<times> real) option"

subsection \<open>The accession bimap\<close>

text \<open>
  \<open>boost::bimap<String, String>\<close>: a list of (accession, token) pairs in which both
  sides are keys. An insertion is refused when either key is already present. \<open>find\<close>
  returns \<open>None\<close> for \<open>end()\<close>.
\<close>

type_synonym StringBimap = "(string \<times> string) list"

definition bimap_insert :: "string \<times> string \<Rightarrow> StringBimap \<Rightarrow> StringBimap" where
  "bimap_insert p m =
     (if fst p \<in> fst ` set m \<or> snd p \<in> snd ` set m then m else m @ [p])"

definition left_find :: "StringBimap \<Rightarrow> string \<Rightarrow> string option" where
  "left_find m a = map_of m a"

definition right_find :: "StringBimap \<Rightarrow> string \<Rightarrow> string option" where
  "right_find m t = map_of (map (\<lambda>p. (snd p, fst p)) m) t"

subsection \<open>\<open>main_\<close>: sanitising the protein accessions\<close>

text \<open>The two nested loops that fill \<open>set<String> accessions\<close>.\<close>

definition collect_accessions :: "ProteinIdentification list \<Rightarrow> string list" where
  "collect_accessions proteins =
     fold (\<lambda>prot accs. fold (\<lambda>hit accs'. insort_insert (accession hit) accs') (hits prot) accs)
       proteins []"

text \<open>\<open>it->substr(0, pos) + "_" + String(counter)\<close>.\<close>

definition sanitized_token :: "string \<Rightarrow> nat \<Rightarrow> string" where
  "sanitized_token a counter = valid_prefix a @ ''_'' @ String_of_nat counter"

text \<open>The loop over the set, with \<open>counter\<close> incremented along the iterator.\<close>

fun sanitize_loop :: "string list \<Rightarrow> nat \<Rightarrow> StringBimap \<Rightarrow> StringBimap" where
  "sanitize_loop [] counter m = m"
| "sanitize_loop (a # as) counter m =
     sanitize_loop as (Suc counter) (bimap_insert (a, sanitized_token a counter) m)"

definition sanitize_accessions :: "ProteinIdentification list \<Rightarrow> StringBimap" where
  "sanitize_accessions proteins = sanitize_loop (collect_accessions proteins) 1 []"

subsection \<open>\<open>main_\<close>: pooling several runs\<close>

text \<open>
  \<open>hit_map[acc] = &hit\<close> on a \<open>std::map\<close>: overwrite the entry of an existing key, insert a
  new key at its place in the order. The pointer is a copy of the hit, which nothing
  changes between the scan and \<open>insertHit\<close>.
\<close>

fun map_assign :: "string \<Rightarrow> 'v \<Rightarrow> (string \<times> 'v) list \<Rightarrow> (string \<times> 'v) list" where
  "map_assign k v [] = [(k, v)]"
| "map_assign k v ((k', v') # m) =
     (if k < k' then (k, v) # (k', v') # m
      else if k = k' then (k, v) # m
      else (k', v') # map_assign k v m)"

text \<open>Runs in reverse, the hits of each run in reverse.\<close>

definition build_hit_map :: "ProteinIdentification list \<Rightarrow> (string \<times> ProteinHit) list" where
  "build_hit_map proteins =
     fold (\<lambda>prot hm. fold (\<lambda>hit hm'. map_assign (accession hit) hit hm') (rev (hits prot)) hm)
       (rev proteins) []"

text \<open>\<open>all_proteins.insertHit\<close> for each entry of the map in iteration order.\<close>

definition merged_hits :: "ProteinIdentification list \<Rightarrow> ProteinHit list" where
  "merged_hits proteins = fold (\<lambda>entry hs. hs @ [snd entry]) (build_hit_map proteins) []"

definition pooled_run :: "ProteinIdentification list \<Rightarrow> ProteinIdentification" where
  "pooled_run proteins =
     \<lparr>prot_identifier = '''', hits = merged_hits proteins, search_engine = ''Fido'',
      prot_score_type = ''Posterior Probability'', prot_higher_score_better = True,
      indistinguishable_proteins = [], fido_meta = None\<rparr>"

subsection \<open>Errors, files and the engine\<close>

datatype error =
  MissingInformation string
| EndIteratorDereferenced

datatype graph_line = E string | R string | P double

datatype file_content =
  GraphFile "graph_line list"
| TextFile string
| IdXML "ProteinIdentification list" "PeptideIdentification list"

text \<open>
  The outcome of \<open>QProcess::start\<close> with \<open>waitForFinished(-1)\<close>: the wait fails, or the
  process ends and its standard output and standard error are read.
\<close>

datatype proc_result = NotFinished | Finished string string

datatype event =
  Written string
| Warned string
| Invoked string "string list" proc_result
| Removed string

text \<open>
  What the adapter takes from its surroundings: the engine (a black box that sees its
  command line and the files), the temporary directory, the file-system test on \<open>exe\<close>,
  and the standard library's conversions between doubles and text:
  \<open>read_probability\<close> is \<open>line >> group.probability\<close> (the number and the unread rest of the
  line, \<open>None\<close> when no number can be read), \<open>read_parameters\<close> is
  \<open>ss >> prob_protein >> prob_peptide >> prob_spurious\<close> on the three variables.
\<close>

record environment =
  engine :: "string \<Rightarrow> string list \<Rightarrow> (string \<Rightarrow> file_content option) \<Rightarrow> proc_result"
  temp_directory :: string
  is_directory :: "string \<Rightarrow> bool"
  dir_separator :: string
  number_of_double :: "real \<Rightarrow> string"
  read_probability :: "string \<Rightarrow> (real \<times> string) option"
  read_parameters :: "string \<Rightarrow> real \<times> real \<times> real \<Rightarrow> real \<times> real \<times> real"

record options =
  opt_in :: string
  opt_out :: string
  opt_exe :: string
  opt_prob_param :: string
  separate_runs :: bool
  keep_zero_group :: bool
  no_cleanup :: bool
  all_PSMs :: bool
  group_level :: bool
  accuracy :: string
  log2_states :: int
  log2_states_precalc :: int
  opt_prob_protein :: real
  opt_prob_peptide :: real
  opt_prob_spurious :: real
  debug_level :: int

text \<open>The variables that \<open>runFido\<close> receives by reference, the files and the event log.\<close>

record fido_state =
  peptides :: "PeptideIdentification list"
  fido_params :: "string list"
  prob_protein :: real
  prob_peptide :: real
  prob_spurious :: real
  files :: "string \<Rightarrow> file_content option"
  events :: "event list"

subsection \<open>\<open>writePSMGraph\<close>\<close>

text \<open>
  Modelled from the spec: \<open>PeptideIdentification::sort\<close> is declared outside the translated
  file. The best hit comes first: by descending score when higher scores are better, by
  ascending score otherwise; hits of equal score keep their order. The sort is an insertion
  sort on the comparison \<open>before a b\<close> ("\<open>a\<close> goes before \<open>b\<close>").
\<close>

fun insert_sorted :: "('a \<Rightarrow> 'a \<Rightarrow> bool) \<Rightarrow> 'a \<Rightarrow> 'a list \<Rightarrow> 'a list" where
  "insert_sorted before x [] = [x]"
| "insert_sorted before x (y # ys) =
     (if before y x then y # insert_sorted before x ys else x # y # ys)"

definition stable_sort :: "('a \<Rightarrow> 'a \<Rightarrow> bool) \<Rightarrow> 'a list \<Rightarrow> 'a list" where
  "stable_sort before xs = foldr (insert_sorted before) xs []"

definition PeptideIdentification_sort :: "PeptideIdentification \<Rightarrow> PeptideIdentification" where
  "PeptideIdentification_sort pep =
     pep\<lparr>pep_hits :=
       (if higher_score_better pep
        then stable_sort (\<lambda>a b. double_less (score b) (score a)) (pep_hits pep)
        else stable_sort (\<lambda>a b. double_less (score a) (score b)) (pep_hits pep))\<rparr>"

text \<open>\<open>PeptideHit::extractProteinAccessions\<close>: the accessions of the hit as a \<open>set<String>\<close>.\<close>

definition extractProteinAccessions :: "PeptideHit \<Rightarrow> string list" where
  "extractProteinAccessions hit = fold insort_insert (peptide_evidences hit) []"

definition metaValueExists :: "PeptideHit \<Rightarrow> string \<Rightarrow> bool" where
  "metaValueExists hit name = (map_of (meta_values hit) name \<noteq> None)"

definition getMetaValue :: "PeptideHit \<Rightarrow> string \<Rightarrow> double" where
  "getMetaValue hit name =
     (case map_of (meta_values hit) name of Some v \<Rightarrow> v | None \<Rightarrow> Finite 0)"

definition pep_warning :: string where
  "pep_warning = ''Warning: Scores of peptide hits seem to be posterior error probabilities. Converting to (positive) posterior probabilities.''"

definition unsuitable_score_message :: "string \<Rightarrow> string" where
  "unsuitable_score_message error_reason =
     ''Error: Unsuitable score type for peptide-spectrum matches detected (problem: ''
     @ error_reason
     @ '').'' @ [newline]
     @ ''Fido requires probabilities as scores, e.g. as produced by IDPosteriorErrorProbability with the 'prob_correct' option.''"

text \<open>
  The block from \<open>double score = 0.0\<close> to the end of the \<open>if\<close> on \<open>prob_param\<close>: the
  score, the error reason, the new value of \<open>warned_once\<close> and the warnings logged.
\<close>

definition resolve_score ::
  "string \<Rightarrow> PeptideIdentification \<Rightarrow> PeptideHit \<Rightarrow> bool \<Rightarrow> double \<times> string \<times> bool \<times> string list" where
  "resolve_score prob_param pep hit warned =
     (if prob_param = [] \<or> \<not> metaValueExists hit prob_param then
        (if \<not> higher_score_better pep then
           (let score_type' = toLower (score_type pep) in
            if score_type' = ''posterior error probability'' \<or> hasPrefix score_type' ''consensus_''
            then (double_minus (Finite 1) (score hit), [], True,
                  if warned then [] else [pep_warning])
            else (score hit, ''lower scores are better'', warned, []))
         else (score hit, [], warned, []))
      else (getMetaValue hit prob_param, [], warned, []))"

text \<open>
  The two range tests \<open>score < 0.0\<close> and \<open>score > 1.0\<close>, which overwrite an earlier error
  reason. Both are false for NaN.
\<close>

definition check_range :: "double \<Rightarrow> string \<Rightarrow> string" where
  "check_range s error_reason =
     (if double_less s (Finite 0) then ''score < 0''
      else if double_less (Finite 1) s then ''score > 1''
      else error_reason)"

text \<open>
  The loop over the accessions of the hit: empty accessions are skipped, the others are
  looked up on the left side of the bimap.
\<close>

fun accession_lines :: "StringBimap \<Rightarrow> string list \<Rightarrow> graph_line list \<Rightarrow> error + graph_line list" where
  "accession_lines sa [] out = Inr out"
| "accession_lines sa (acc # accs) out =
     (if acc = [] then accession_lines sa accs out
      else (case left_find sa acc of
              None \<Rightarrow> Inl EndIteratorDereferenced
            | Some sanitized \<Rightarrow> accession_lines sa accs (out @ [R sanitized])))"

record psm_state =
  graph_out :: "graph_line list"
  warned_once :: bool
  warnings :: "string list"

text \<open>
  One pass of the loop over the peptide identifications. The identification is returned
  as the pass leaves it (sorted once \<open>pep_it->sort()\<close> is reached).
\<close>

definition psm_entry ::
  "StringBimap \<Rightarrow> string \<Rightarrow> string \<Rightarrow> PeptideIdentification \<Rightarrow> psm_state
   \<Rightarrow> error option \<times> PeptideIdentification \<times> psm_state" where
  "psm_entry sa prob_param ident pep st =
     (if (ident \<noteq> [] \<and> pep_identifier pep \<noteq> ident) \<or> pep_hits pep = [] then (None, pep, st)
      else
        (let pep' = PeptideIdentification_sort pep in
         case pep_hits pep' of
           [] \<Rightarrow> (None, pep', st)
         | hit # _ \<Rightarrow>
           if sequence hit = [] \<or> extractProteinAccessions hit = [] then (None, pep', st)
           else
             (case resolve_score prob_param pep' hit (warned_once st) of
                (s, error_reason, warned, new_warnings) \<Rightarrow>
                  (let st1 = st\<lparr>warned_once := warned, warnings := warnings st @ new_warnings\<rparr>;
                       error_reason' = check_range s error_reason
                   in if error_reason' \<noteq> []
                      then (Some (MissingInformation (unsuitable_score_message error_reason')), pep', st1)
                      else
                        (case accession_lines sa (extractProteinAccessions hit)
                                (graph_out st1 @ [E (sequence hit)]) of
                           Inl e \<Rightarrow> (Some e, pep', st1\<lparr>graph_out := graph_out st1 @ [E (sequence hit)]\<rparr>)
                         | Inr out \<Rightarrow> (None, pep', st1\<lparr>graph_out := out @ [P s]\<rparr>))))))"

fun psm_loop ::
  "StringBimap \<Rightarrow> string \<Rightarrow> string \<Rightarrow> PeptideIdentification list \<Rightarrow> psm_state
   \<Rightarrow> error option \<times> PeptideIdentification list \<times> psm_state" where
  "psm_loop sa prob_param ident [] st = (None, [], st)"
| "psm_loop sa prob_param ident (pep # peps) st =
     (case psm_entry sa prob_param ident pep st of
        (Some e, pep', st') \<Rightarrow> (Some e, pep' # peps, st')
      | (None, pep', st') \<Rightarrow>
          (case psm_loop sa prob_param ident peps st' of
             (r, peps', st'') \<Rightarrow> (r, pep' # peps', st'')))"

text \<open>
  The result: the exception thrown, if any; the peptide identifications as the call
  leaves them; the lines written to \<open>out_path\<close>; the warnings logged.
\<close>

definition writePSMGraph ::
  "StringBimap \<Rightarrow> PeptideIdentification list \<Rightarrow> string \<Rightarrow> string
   \<Rightarrow> error option \<times> PeptideIdentification list \<times> graph_line list \<times> string list" where
  "writePSMGraph sa peps prob_param ident =
     (case psm_loop sa prob_param ident peps \<lparr>graph_out = [], warned_once = False, warnings = []\<rparr> of
        (r, peps', st) \<Rightarrow> (r, peps', graph_out st, warnings st))"

subsection \<open>\<open>writeProteinLists\<close>\<close>

definition target_decoy_message :: string where
  "target_decoy_message = ''Error: All protein hits must be annotated with target/decoy meta data. Run PeptideIndexer with the 'annotate_proteins' option to accomplish this.''"

definition no_targets_message :: string where
  "no_targets_message = ''Error: No target proteins found. Fido needs both targets and decoys.''"

definition no_decoys_message :: string where
  "no_decoys_message = ''Error: No decoy proteins found. Fido needs both targets and decoys.''"

text \<open>
  \<open>getMetaValue("target_decoy").toString()\<close>: the text of an absent meta value is empty.
\<close>

definition target_decoy_string :: "ProteinHit \<Rightarrow> string" where
  "target_decoy_string hit = (case target_decoy hit of None \<Rightarrow> [] | Some s \<Rightarrow> s)"

text \<open>The loop that gathers the two sets; each pass looks the accession up first.\<close>

fun gather_target_decoy ::
  "StringBimap \<Rightarrow> ProteinHit list \<Rightarrow> string list \<times> string list
   \<Rightarrow> error + (string list \<times> string list)" where
  "gather_target_decoy sa [] sets = Inr sets"
| "gather_target_decoy sa (hit # rest) (targets, decoys) =
     (case left_find sa (accession hit) of
        None \<Rightarrow> Inl EndIteratorDereferenced
      | Some sanitized \<Rightarrow>
          if target_decoy_string hit = ''target''
          then gather_target_decoy sa rest (insort_insert sanitized targets, decoys)
          else if target_decoy_string hit = ''decoy''
          then gather_target_decoy sa rest (targets, insort_insert sanitized decoys)
          else Inl (MissingInformation target_decoy_message))"

text \<open>One brace-delimited list: \<open>" , "\<close> before every element but the first.\<close>

fun comma_separated :: "string list \<Rightarrow> string" where
  "comma_separated [] = []"
| "comma_separated [x] = x"
| "comma_separated (x # y # ys) = x @ '' , '' @ comma_separated (y # ys)"

definition protein_lists_text :: "string list \<Rightarrow> string list \<Rightarrow> string" where
  "protein_lists_text targets decoys =
     ''{ '' @ comma_separated targets @ '' }'' @ [newline]
     @ ''{ '' @ comma_separated decoys @ '' }'' @ [newline]"

text \<open>The result is the exception thrown or the text written to \<open>out_path\<close>.\<close>

definition writeProteinLists :: "StringBimap \<Rightarrow> ProteinIdentification \<Rightarrow> error + string" where
  "writeProteinLists sa protein =
     (case gather_target_decoy sa (hits protein) ([], []) of
        Inl e \<Rightarrow> Inl e
      | Inr (targets, decoys) \<Rightarrow>
          if targets = [] then Inl (MissingInformation no_targets_message)
          else if decoys = [] then Inl (MissingInformation no_decoys_message)
          else Inr (protein_lists_text targets decoys))"

subsection \<open>\<open>runFido\<close>\<close>

text \<open>
  The body of the inner loop, \<open>if (accession.size() > 1) { ... }\<close>, on the variable
  \<open>accession\<close>, the accessions of the group so far and the counter \<open>zero_proteins\<close>. The
  variable is returned as the pass leaves it: the de-sanitising assignment overwrites it
  with the original accession.
\<close>

definition accession_body ::
  "StringBimap \<Rightarrow> bool \<Rightarrow> real \<Rightarrow> string \<Rightarrow> string list \<times> nat
   \<Rightarrow> error + (string \<times> string list \<times> nat)" where
  "accession_body sa keep p acc state =
     (case state of (accs, zero_proteins) \<Rightarrow>
        if 1 < length acc then
          (let zero_proteins' = (if p = 0 then Suc zero_proteins else zero_proteins)
           in if p = 0 \<and> \<not> keep then Inr (acc, accs, zero_proteins')
              else (case right_find sa acc of
                      None \<Rightarrow> Inl EndIteratorDereferenced
                    | Some original \<Rightarrow> Inr (original, accs @ [original], zero_proteins')))
        else Inr (acc, accs, zero_proteins))"

text \<open>
  \<open>while (line) { line >> accession; ... }\<close>. The stream is tested before the extraction:
  the pass in which the extraction fails still runs the body, on the variable \<open>accession\<close>
  as the pass before left it, and is the last one.
\<close>

function accession_loop ::
  "StringBimap \<Rightarrow> bool \<Rightarrow> real \<Rightarrow> string \<Rightarrow> string \<Rightarrow> string list \<times> nat
   \<Rightarrow> error + (string list \<times> nat)" where
  "accession_loop sa keep p unread acc state =
     (case extract_word unread of
        None \<Rightarrow>
          (case accession_body sa keep p acc state of
             Inl e \<Rightarrow> Inl e
           | Inr (acc', state') \<Rightarrow> Inr state')
      | Some (word, unread') \<Rightarrow>
          (case accession_body sa keep p word state of
             Inl e \<Rightarrow> Inl e
           | Inr (acc', state') \<Rightarrow> accession_loop sa keep p unread' acc' state'))"
  by pat_completeness auto
termination
proof (relation "measure (\<lambda>(sa, keep, p, unread, acc, state). length unread)")
  show "wf (measure (\<lambda>(sa, keep, p, unread, acc, state). length unread))"
    by simp
next
  fix sa :: StringBimap and keep :: bool and p :: real and unread acc acc' :: string
    and state state' :: "string list \<times> nat" and x2 :: "string \<times> string" and word unread' :: string
  assume ex: "extract_word unread = Some x2" and x2: "(word, unread') = x2"
  let ?r = "dropWhile isspace unread"
  from ex x2 have ne: "?r \<noteq> []" and u: "unread' = dropWhile (\<lambda>c. \<not> isspace c) ?r"
    by (auto simp: extract_word_def Let_def split: if_splits)
  from ne have "\<not> isspace (hd ?r)"
    using hd_dropWhile [of isspace unread] by simp
  with ne have "length (dropWhile (\<lambda>c. \<not> isspace c) ?r) < length ?r"
    by (cases ?r) (auto intro: le_imp_less_Suc length_dropWhile_le)
  also have "length ?r \<le> length unread"
    by (rule length_dropWhile_le)
  finally show "((sa, keep, p, unread', acc', state'), (sa, keep, p, unread, acc, state))
      \<in> measure (\<lambda>(sa, keep, p, unread, acc, state). length unread)"
    using u by simp
qed

declare accession_loop.simps [simp del]

text \<open>
  The loop over the lines of the engine's standard output, on \<open>groups\<close>,
  \<open>protein_counter\<close> and \<open>zero_proteins\<close>. The accessions of a group are sorted by
  \<open>String\<close>'s order when the group is stored.
\<close>

fun group_loop ::
  "(string \<Rightarrow> (real \<times> string) option) \<Rightarrow> StringBimap \<Rightarrow> bool \<Rightarrow> string list
   \<Rightarrow> ProteinGroup list \<times> nat \<times> nat \<Rightarrow> error + (ProteinGroup list \<times> nat \<times> nat)" where
  "group_loop rd sa keep [] state = Inr state"
| "group_loop rd sa keep (line # rest) (groups, protein_counter, zero_proteins) =
     (case rd line of
        None \<Rightarrow> group_loop rd sa keep rest (groups, protein_counter, zero_proteins)
      | Some (p, unread) \<Rightarrow>
          (case accession_loop sa keep p unread [] ([], zero_proteins) of
             Inl e \<Rightarrow> Inl e
           | Inr (accs, zero_proteins') \<Rightarrow>
               if accs \<noteq> []
               then group_loop rd sa keep rest
                      (groups @ [\<lparr>probability = p, accessions = sort accs\<rparr>],
                       protein_counter + length accs, zero_proteins')
               else group_loop rd sa keep rest (groups, protein_counter, zero_proteins')))"

text \<open>
  Modelled from the spec: \<open>ProteinGroup::operator<\<close> is declared outside the translated file.
  Groups are compared by probability, ascending, and groups of equal probability by their
  accession lists, lexicographically; \<open>sort(groups.begin(), groups.end())\<close> orders the
  vector by this comparison.
\<close>

definition group_key :: "ProteinGroup \<Rightarrow> real \<times> string list" where
  "group_key g = (probability g, accessions g)"

definition sort_groups :: "ProteinGroup list \<Rightarrow> ProteinGroup list" where
  "sort_groups groups = sort_key group_key groups"

text \<open>
  From \<open>Size protein_counter = 0, zero_proteins = 0\<close> to \<open>sort(groups.begin(), groups.end())\<close>:
  the sorted groups and the two counters that the summary line reports.
\<close>

definition parse_groups ::
  "(string \<Rightarrow> (real \<times> string) option) \<Rightarrow> StringBimap \<Rightarrow> bool \<Rightarrow> string
   \<Rightarrow> error + (ProteinGroup list \<times> nat \<times> nat)" where
  "parse_groups rd sa keep output =
     (case group_loop rd sa keep (split newline output) ([], 0, 0) of
        Inl e \<Rightarrow> Inl e
      | Inr (groups, protein_counter, zero_proteins) \<Rightarrow>
          Inr (sort_groups groups, protein_counter, zero_proteins))"

text \<open>\<open>String num = counter ? "." + String(counter) : ""\<close> and the temporary file names.\<close>

definition num_suffix :: "nat \<Rightarrow> string" where
  "num_suffix counter = (if counter \<noteq> 0 then ''.'' @ String_of_nat counter else [])"

definition input_graph_path :: "string \<Rightarrow> nat \<Rightarrow> string" where
  "input_graph_path temp_dir counter = temp_dir @ ''fido_input_graph'' @ num_suffix counter @ ''.txt''"

definition input_proteins_path :: "string \<Rightarrow> nat \<Rightarrow> string" where
  "input_proteins_path temp_dir counter =
     temp_dir @ ''fido_input_proteins'' @ num_suffix counter @ ''.txt''"

definition write_file :: "string \<Rightarrow> file_content \<Rightarrow> fido_state \<Rightarrow> fido_state" where
  "write_file path content st =
     st\<lparr>files := (files st)(path \<mapsto> content), events := events st @ [Written path]\<rparr>"

text \<open>
  The first part of \<open>runFido\<close>, up to \<open>QProcess fido\<close>: the placeholders are replaced in the
  caller's parameter list and the input files are written.
\<close>

definition write_inputs ::
  "StringBimap \<Rightarrow> string \<Rightarrow> ProteinIdentification \<Rightarrow> bool \<Rightarrow> string \<Rightarrow> nat \<Rightarrow> fido_state
   \<Rightarrow> error option \<times> fido_state" where
  "write_inputs sa prob_param protein choose_params temp_dir counter st =
     (let input_graph = input_graph_path temp_dir counter;
          st1 = st\<lparr>fido_params := replaceInStrings ''INPUT_GRAPH'' input_graph (fido_params st)\<rparr>
      in case writePSMGraph sa (peptides st1) prob_param (prot_identifier protein) of
           (r, peps', graph, warns) \<Rightarrow>
             (let st2 = (write_file input_graph (GraphFile graph) st1)\<lparr>peptides := peps'\<rparr>;
                  st3 = st2\<lparr>events := events st2 @ map Warned warns\<rparr>
              in case r of
                   Some e \<Rightarrow> (Some e, st3)
                 | None \<Rightarrow>
                     if choose_params then
                       (let input_proteins = input_proteins_path temp_dir counter;
                            st4 = st3\<lparr>fido_params :=
                                     replaceInStrings ''INPUT_PROTEINS'' input_proteins (fido_params st3)\<rparr>
                        in case writeProteinLists sa protein of
                             Inl e \<Rightarrow> (Some e, st4)
                           | Inr text \<Rightarrow> (None, write_file input_proteins (TextFile text) st4))
                     else (None, st3)))"

text \<open>
  The block \<open>if (choose_params)\<close> after the process has ended. The flag is \<open>False\<close> for the
  \<open>return false\<close> on the exception marker.
\<close>

definition parse_parameter_search ::
  "environment \<Rightarrow> int \<Rightarrow> string \<Rightarrow> nat \<Rightarrow> string \<Rightarrow> fido_state \<Rightarrow> bool \<times> fido_state" where
  "parse_parameter_search env debug temp_dir counter params_output st =
     (let st1 = (if 1 < debug
                 then write_file (temp_dir @ ''fido_status'' @ num_suffix counter @ ''.txt'')
                        (TextFile params_output) st
                 else st);
          lines = filter (\<lambda>l. l \<noteq> []) (split newline params_output)
      in if lines \<noteq> [] then
           (if hasPrefix (hd lines) ''caught an exception'' then (False, st1)
            else
              (let st2 = (if hasPrefix (hd lines) ''Warning:''
                          then st1\<lparr>events := events st1 @ [Warned (hd lines)]\<rparr> else st1)
               in if hasPrefix (last lines) ''Using best gamma, alpha, beta =''
                  then (case read_parameters env (suffix_after CHR ''='' (last lines))
                               (prob_protein st2, prob_peptide st2, prob_spurious st2) of
                          (a, b, c) \<Rightarrow>
                            (True, st2\<lparr>prob_protein := a, prob_peptide := b, prob_spurious := c\<rparr>))
                  else (True, st2)))
         else (True, st1))"

text \<open>
  \<open>runFido\<close>. The result is the exception thrown or the value returned, the run as the
  call leaves it, and the state.
\<close>

definition runFido ::
  "environment \<Rightarrow> string \<Rightarrow> int \<Rightarrow> StringBimap \<Rightarrow> ProteinIdentification \<Rightarrow> bool \<Rightarrow> string
   \<Rightarrow> string \<Rightarrow> bool \<Rightarrow> nat \<Rightarrow> fido_state
   \<Rightarrow> (error + bool) \<times> ProteinIdentification \<times> fido_state" where
  "runFido env prob_param debug sa protein choose_params exe temp_dir keep counter st =
     (case write_inputs sa prob_param protein choose_params temp_dir counter st of
        (Some e, st1) \<Rightarrow> (Inl e, protein, st1)
      | (None, st1) \<Rightarrow>
          (let result = engine env exe (fido_params st1) (files st1);
               st2 = st1\<lparr>events := events st1 @ [Invoked exe (fido_params st1) result]\<rparr>
           in case result of
                NotFinished \<Rightarrow> (Inr False, protein, st2)
              | Finished output params_output \<Rightarrow>
                  (case (if choose_params
                         then parse_parameter_search env debug temp_dir counter params_output st2
                         else (True, st2)) of
                     (False, st3) \<Rightarrow> (Inr False, protein, st3)
                   | (True, st3) \<Rightarrow>
                       (let st4 = (if 1 < debug
                                   then write_file (temp_dir @ ''fido_output'' @ num_suffix counter @ ''.txt'')
                                          (TextFile output) st3
                                   else st3)
                        in case parse_groups (read_probability env) sa keep output of
                             Inl e \<Rightarrow> (Inl e, protein, st4)
                           | Inr (groups, protein_counter, zero_proteins) \<Rightarrow>
                               (Inr True,
                                protein\<lparr>indistinguishable_proteins := groups,
                                        fido_meta := Some (prob_protein st4, prob_peptide st4,
                                                           prob_spurious st4)\<rparr>,
                                st4)))))"

subsection \<open>\<open>main_\<close>\<close>

datatype ExitCodes = EXECUTION_OK | INPUT_FILE_EMPTY | EXTERNAL_PROGRAM_ERROR

definition choose_params_of :: "options \<Rightarrow> bool" where
  "choose_params_of opts =
     (opt_prob_protein opts = 0 \<and> opt_prob_peptide opts = 0 \<and> opt_prob_spurious opts = 0)"

definition executable :: "environment \<Rightarrow> options \<Rightarrow> string" where
  "executable env opts =
     (let name = (if choose_params_of opts then ''FidoChooseParameters'' else ''Fido'')
      in if opt_exe opts = [] then name
         else if is_directory env (opt_exe opts) then opt_exe opts @ dir_separator env @ name
         else opt_exe opts)"

text \<open>The parameter list with its two placeholders, as built before the runs.\<close>

definition accuracy_flag :: "string \<Rightarrow> string list" where
  "accuracy_flag acc =
     (if acc \<noteq> [] then
        (if acc = ''best'' then [''-c 1'']
         else if acc = ''relaxed'' then [''-c 2'']
         else if acc = ''sloppy'' then [''-c 3'']
         else [])
      else [])"

definition initial_fido_params :: "environment \<Rightarrow> options \<Rightarrow> string list" where
  "initial_fido_params env opts =
     (if choose_params_of opts then
        (let precalc = log2_states_precalc opts;
             log2 = (if precalc \<noteq> 0 \<and> log2_states opts = 0 then 18 else log2_states opts)
         in (if no_cleanup opts then [''-p''] else [])
            @ (if all_PSMs opts then [''-a''] else [])
            @ (if group_level opts then [''-g''] else [])
            @ accuracy_flag (accuracy opts)
            @ [''INPUT_GRAPH'', ''INPUT_PROTEINS'']
            @ (if precalc \<noteq> 0 then [String_of_int precalc] else [])
            @ (if log2 \<noteq> 0 then [String_of_int log2] else []))
      else
        [''INPUT_GRAPH'', number_of_double env (opt_prob_protein opts),
         number_of_double env (opt_prob_peptide opts),
         number_of_double env (opt_prob_spurious opts)]
        @ (if log2_states opts \<noteq> 0 then [String_of_int (log2_states opts)] else []))"

text \<open>
  The loop of the branch \<open>if (separate_runs)\<close>: \<open>fido_success\<close> is assigned in every pass,
  \<open>counter\<close> starts at 1. An exception leaves the loop.
\<close>

fun separate_loop ::
  "environment \<Rightarrow> options \<Rightarrow> StringBimap \<Rightarrow> string \<Rightarrow> ProteinIdentification list \<Rightarrow> nat
   \<Rightarrow> bool \<Rightarrow> fido_state \<Rightarrow> (error + bool) \<times> ProteinIdentification list \<times> fido_state" where
  "separate_loop env opts sa exe [] counter fido_success st = (Inr fido_success, [], st)"
| "separate_loop env opts sa exe (prot # prots) counter fido_success st =
     (case runFido env (opt_prob_param opts) (debug_level opts) sa prot (choose_params_of opts)
             exe (temp_directory env) (keep_zero_group opts) counter st of
        (Inl e, prot', st') \<Rightarrow> (Inl e, prot' # prots, st')
      | (Inr ok, prot', st') \<Rightarrow>
          (case separate_loop env opts sa exe prots (Suc counter) ok st' of
             (r, prots', st'') \<Rightarrow> (r, prot' # prots', st'')))"

text \<open>
  \<open>all_proteins.findHit(acc)->setScore(p)\<close>: the first hit with the accession gets the
  score; \<open>None\<close> when there is no such hit and \<open>end()\<close> would be dereferenced.
\<close>

fun findHit_setScore :: "string \<Rightarrow> real \<Rightarrow> ProteinHit list \<Rightarrow> ProteinHit list option" where
  "findHit_setScore acc p [] = None"
| "findHit_setScore acc p (h # hs) =
     (if accession h = acc then Some (h\<lparr>prot_score := p\<rparr> # hs)
      else (case findHit_setScore acc p hs of None \<Rightarrow> None | Some hs' \<Rightarrow> Some (h # hs')))"

fun write_group_scores :: "real \<Rightarrow> string list \<Rightarrow> ProteinHit list \<Rightarrow> ProteinHit list option" where
  "write_group_scores p [] hs = Some hs"
| "write_group_scores p (acc # accs) hs =
     (case findHit_setScore acc p hs of
        None \<Rightarrow> None
      | Some hs' \<Rightarrow> write_group_scores p accs hs')"

fun write_scores :: "ProteinGroup list \<Rightarrow> ProteinHit list \<Rightarrow> ProteinHit list option" where
  "write_scores [] hs = Some hs"
| "write_scores (g # gs) hs =
     (case write_group_scores (probability g) (accessions g) hs of
        None \<Rightarrow> None
      | Some hs' \<Rightarrow> write_scores gs hs')"

text \<open>The branch that merges several runs: \<open>proteins\<close> becomes the one pooled run.\<close>

definition pooled_inference ::
  "environment \<Rightarrow> options \<Rightarrow> StringBimap \<Rightarrow> string \<Rightarrow> ProteinIdentification list \<Rightarrow> fido_state
   \<Rightarrow> (error + bool) \<times> ProteinIdentification list \<times> fido_state" where
  "pooled_inference env opts sa exe proteins st =
     (let st1 = st\<lparr>peptides := map (\<lambda>pep. pep\<lparr>pep_identifier := []\<rparr>) (peptides st)\<rparr>
      in case runFido env (opt_prob_param opts) (debug_level opts) sa (pooled_run proteins)
                (choose_params_of opts) exe (temp_directory env) (keep_zero_group opts) 0 st1 of
           (Inl e, all_proteins, st2) \<Rightarrow> (Inl e, proteins, st2)
         | (Inr ok, all_proteins, st2) \<Rightarrow>
             (case write_scores (indistinguishable_proteins all_proteins) (hits all_proteins) of
                None \<Rightarrow> (Inl EndIteratorDereferenced, proteins, st2)
              | Some hs \<Rightarrow> (Inr ok, [all_proteins\<lparr>hits := hs\<rparr>], st2)))"

text \<open>The branch for a single run, \<open>proteins[0]\<close>.\<close>

definition single_inference ::
  "environment \<Rightarrow> options \<Rightarrow> StringBimap \<Rightarrow> string \<Rightarrow> ProteinIdentification list \<Rightarrow> fido_state
   \<Rightarrow> (error + bool) \<times> ProteinIdentification list \<times> fido_state" where
  "single_inference env opts sa exe proteins st =
     (case proteins of
        [] \<Rightarrow> (Inl EndIteratorDereferenced, proteins, st)
      | prot # prots \<Rightarrow>
          (case runFido env (opt_prob_param opts) (debug_level opts) sa prot (choose_params_of opts)
                  exe (temp_directory env) (keep_zero_group opts) 0 st of
             (r, prot', st') \<Rightarrow> (r, prot' # prots, st')))"

definition remove_temporary :: "string \<Rightarrow> fido_state \<Rightarrow> fido_state" where
  "remove_temporary temp_dir st =
     st\<lparr>files := (\<lambda>path. if hasPrefix path temp_dir then None else files st path),
        events := events st @ [Removed temp_dir]\<rparr>"

text \<open>
  \<open>main_\<close>, from the loaded identification data (\<open>IdXMLFile().load\<close> is the boundary) to the
  exit code. Only the files that the adapter writes are tracked. An exception leaves
  \<open>main_\<close> where it is thrown; informational log lines are left out.
\<close>

definition main ::
  "environment \<Rightarrow> options \<Rightarrow> ProteinIdentification list \<Rightarrow> PeptideIdentification list
   \<Rightarrow> (error + ExitCodes) \<times> fido_state" where
  "main env opts proteins peps =
     (let st0 = \<lparr>peptides = peps, fido_params = [], prob_protein = opt_prob_protein opts,
                 prob_peptide = opt_prob_peptide opts, prob_spurious = opt_prob_spurious opts,
                 files = (\<lambda>path. None), events = []\<rparr>
      in if proteins = [] \<or> peps = [] then (Inr INPUT_FILE_EMPTY, st0)
         else
           (let sa = sanitize_accessions proteins;
                exe = executable env opts;
                st1 = st0\<lparr>fido_params := initial_fido_params env opts\<rparr>
            in case (if separate_runs opts
                     then separate_loop env opts sa exe proteins 1 False st1
                     else if 1 < length proteins
                     then pooled_inference env opts sa exe proteins st1
                     else single_inference env opts sa exe proteins st1) of
                 (Inl e, proteins', st2) \<Rightarrow> (Inl e, st2)
               | (Inr fido_success, proteins', st2) \<Rightarrow>
                   (let st3 = write_file (opt_out opts) (IdXML proteins' (peptides st2)) st2;
                        st4 = (if 1 < debug_level opts then st3
                               else remove_temporary (temp_directory env) st3)
                    in (Inr (if fido_success then EXECUTION_OK else EXTERNAL_PROGRAM_ERROR), st4))))"

section \<open>Auxiliary notions for the proofs\<close>

text \<open>The number that a string of decimal digits denotes.\<close>

definition digits_value :: "string \<Rightarrow> nat" where
  "digits_value s = foldl (\<lambda>a c. 10 * a + (of_char c - 48)) 0 s"

text \<open>The contents of the bimap after the sanitising loop, in closed form.\<close>

definition token_table :: "string list \<Rightarrow> nat \<Rightarrow> StringBimap" where
  "token_table as c = map (\<lambda>i. (as ! i, sanitized_token (as ! i) (c + i))) [0..<length as]"


text \<open>
  The hit of an identification that \<open>writePSMGraph\<close> reads (\<open>getHits()[0]\<close> after
  \<open>sort()\<close>), and the identifications that pass the two \<open>continue\<close> tests, whose best hit
  is therefore encoded.
\<close>

definition best_hit :: "PeptideIdentification \<Rightarrow> PeptideHit" where
  "best_hit pep = hd (pep_hits (PeptideIdentification_sort pep))"

definition encoded :: "string \<Rightarrow> PeptideIdentification \<Rightarrow> bool" where
  "encoded ident pep =
     (\<not> ((ident \<noteq> [] \<and> pep_identifier pep \<noteq> ident) \<or> pep_hits pep = []) \<and>
      \<not> (sequence (best_hit pep) = [] \<or> extractProteinAccessions (best_hit pep) = []))"

text \<open>The score types that are taken for posterior error probabilities.\<close>

definition error_probability_type :: "string \<Rightarrow> bool" where
  "error_probability_type t =
     (toLower t = ''posterior error probability'' \<or> hasPrefix (toLower t) ''consensus_'')"

text \<open>The probabilities on the \<open>p\<close> lines of a graph file, in order.\<close>

fun probability_lines :: "graph_line list \<Rightarrow> double list" where
  "probability_lines [] = []"
| "probability_lines (P p # ls) = p # probability_lines ls"
| "probability_lines (l # ls) = probability_lines ls"

text \<open>The accessions of all protein hits of all runs.\<close>

definition all_accessions :: "ProteinIdentification list \<Rightarrow> string set" where
  "all_accessions proteins = (\<Union>p \<in> set proteins. accession ` set (hits p))"

text \<open>
  An identification whose score, if it is encoded, goes through the conversion
  \<open>1 - score\<close>: lower scores are better, the score type is one of the two kinds, and the
  alternate score field does not apply.
\<close>

definition converted :: "string \<Rightarrow> string \<Rightarrow> PeptideIdentification \<Rightarrow> bool" where
  "converted prob_param ident pep =
     (encoded ident pep \<longrightarrow>
        \<not> higher_score_better pep \<and> error_probability_type (score_type pep) \<and>
        (prob_param = [] \<or> \<not> metaValueExists (best_hit pep) prob_param))"


text \<open>The engine invocations in an event log: command lines, and outcomes.\<close>

fun invocations :: "event list \<Rightarrow> (string \<times> string list) list" where
  "invocations [] = []"
| "invocations (Invoked exe args r # es) = (exe, args) # invocations es"
| "invocations (e # es) = invocations es"

fun invocation_results :: "event list \<Rightarrow> proc_result list" where
  "invocation_results [] = []"
| "invocation_results (Invoked exe args r # es) = r # invocation_results es"
| "invocation_results (e # es) = invocation_results es"

text \<open>
  What \<open>runFido\<close> returns for an outcome of the engine once the input files are written
  and the output is decoded: \<open>false\<close> when the wait fails, and in parameter-search mode when
  the first non-empty line of the standard error starts with the exception marker.
\<close>

definition exception_reported :: "string \<Rightarrow> bool" where
  "exception_reported params_output =
     (let lines = filter (\<lambda>l. l \<noteq> []) (split newline params_output)
      in lines \<noteq> [] \<and> hasPrefix (hd lines) ''caught an exception'')"

definition engine_succeeded :: "bool \<Rightarrow> proc_result \<Rightarrow> bool" where
  "engine_succeeded choose_params r =
     (case r of
        NotFinished \<Rightarrow> False
      | Finished output params_output \<Rightarrow> \<not> (choose_params \<and> exception_reported params_output))"

text \<open>A protein hit without a usable target/decoy annotation.\<close>

definition unlabelled :: "ProteinHit \<Rightarrow> bool" where
  "unlabelled h = (target_decoy_string h \<noteq> ''target'' \<and> target_decoy_string h \<noteq> ''decoy'')"

text \<open>The runs that \<open>main_\<close> hands to \<open>runFido\<close>, in order.\<close>

definition effective_runs :: "options \<Rightarrow> ProteinIdentification list \<Rightarrow> ProteinIdentification list" where
  "effective_runs opts proteins =
     (if separate_runs opts then proteins
      else if 1 < length proteins then [pooled_run proteins]
      else proteins)"

text \<open>
  The part of \<open>main_\<close> that runs the engine (the \<open>if\<close> on \<open>separate_runs\<close> with its three
  branches), on the bimap and the executable that \<open>main_\<close> computes.
\<close>

definition inference ::
  "environment \<Rightarrow> options \<Rightarrow> ProteinIdentification list \<Rightarrow> fido_state
   \<Rightarrow> (error + bool) \<times> ProteinIdentification list \<times> fido_state" where
  "inference env opts proteins st1 =
     (if separate_runs opts
      then separate_loop env opts (sanitize_accessions proteins) (executable env opts) proteins 1 False st1
      else if 1 < length proteins
      then pooled_inference env opts (sanitize_accessions proteins) (executable env opts) proteins st1
      else single_inference env opts (sanitize_accessions proteins) (executable env opts) proteins st1)"

text \<open>
  The wire format of a line of engine output, \<open><probability> { <tok> , <tok> , ... }\<close>:
  after the probability the unread text is the brace-delimited list of the tokens. A token
  is an accession token when it has more than one character and no white space. A line
  reads as \<open>None\<close> when no number can be read from it, and as \<open>Some (p, toks)\<close> when it
  lists the tokens \<open>toks\<close> with probability \<open>p\<close>.
\<close>

definition group_text :: "string list \<Rightarrow> string" where
  "group_text toks = '' { '' @ comma_separated toks @ '' }''"

definition accession_token :: "string \<Rightarrow> bool" where
  "accession_token t = (1 < length t \<and> (\<forall>c \<in> set t. \<not> isspace c))"

definition reads_as ::
  "(string \<Rightarrow> (real \<times> string) option) \<Rightarrow> string \<Rightarrow> (real \<times> string list) option \<Rightarrow> bool" where
  "reads_as rd line g =
     (case g of
        None \<Rightarrow> rd line = None
      | Some (p, toks) \<Rightarrow> rd line = Some (p, group_text toks) \<and> (\<forall>t \<in> set toks. accession_token t))"

fun listed_groups :: "(real \<times> string list) option list \<Rightarrow> (real \<times> string list) list" where
  "listed_groups [] = []"
| "listed_groups (None # gs) = listed_groups gs"
| "listed_groups (Some g # gs) = g # listed_groups gs"

text \<open>The group that a listed group decodes to: accessions de-sanitised and sorted.\<close>

definition desanitize :: "StringBimap \<Rightarrow> string \<Rightarrow> string" where
  "desanitize sa t = (case right_find sa t of Some a \<Rightarrow> a | None \<Rightarrow> t)"

definition decoded_group :: "StringBimap \<Rightarrow> real \<times> string list \<Rightarrow> ProteinGroup" where
  "decoded_group sa g = \<lparr>probability = fst g, accessions = sort (map (desanitize sa) (snd g))\<rparr>"

text \<open>The unread text after the opening brace has been read.\<close>

definition rest_text :: "string list \<Rightarrow> string" where
  "rest_text toks = '' '' @ comma_separated toks @ '' }''"

text \<open>The listed groups that the decoder keeps: at least one token, and not dropped for a
  probability of zero.\<close>

definition retained :: "bool \<Rightarrow> real \<times> string list \<Rightarrow> bool" where
  "retained keep g = (snd g \<noteq> [] \<and> (keep \<or> fst g \<noteq> 0))"





section \<open>Example inputs\<close>

definition example_hit :: "string \<Rightarrow> string \<Rightarrow> real \<Rightarrow> ProteinHit" where
  "example_hit acc label s = \<lparr>accession = acc, target_decoy = Some label, prot_score = s\<rparr>"

definition example_run :: "string \<Rightarrow> ProteinHit list \<Rightarrow> ProteinIdentification" where
  "example_run ident hs =
     \<lparr>prot_identifier = ident, hits = hs, search_engine = ''Mascot'', prot_score_type = ''Mascot'',
      prot_higher_score_better = True, indistinguishable_proteins = [], fido_meta = None\<rparr>"

text \<open>Two accessions with the same valid prefix, in two runs.\<close>

definition colliding_runs :: "ProteinIdentification list" where
  "colliding_runs =
     [example_run ''run1'' [example_hit ''P1,b'' ''target'' 0],
      example_run ''run2'' [example_hit ''P1 a'' ''decoy'' 0, example_hit ''P1,b'' ''target'' 0]]"

text \<open>Accession \<open>A\<close> is a hit of both runs, with different scores.\<close>

definition overlapping_runs :: "ProteinIdentification list" where
  "overlapping_runs =
     [example_run ''run1'' [example_hit ''B'' ''decoy'' 1, example_hit ''A'' ''target'' 2],
      example_run ''run2'' [example_hit ''A'' ''target'' 3, example_hit ''C'' ''target'' 4]]"

definition example_peptide ::
  "string \<Rightarrow> bool \<Rightarrow> string \<Rightarrow> (string \<times> real \<times> string list) list \<Rightarrow> PeptideIdentification" where
  "example_peptide ident higher type hs =
     \<lparr>pep_identifier = ident,
      pep_hits = map (\<lambda>(seq, s, accs).
                   \<lparr>sequence = seq, score = Finite s, peptide_evidences = accs,
                    meta_values = []\<rparr>) hs,
      higher_score_better = higher, score_type = type\<rparr>"



text \<open>Two identifications with error probabilities; the first has two hits.\<close>

definition error_probability_batch :: "PeptideIdentification list" where
  "error_probability_batch =
     [example_peptide ''run1'' False ''Posterior Error Probability''
        [(''PEPA'', 3 / 10, [''A'']), (''PEPB'', 2 / 10, [''B''])],
      example_peptide ''run2'' False ''consensus_PEPMatrix'' [(''PEPC'', 1 / 4, [''A'', ''C''])]]"

text \<open>A peptide hit that refers to an accession \<open>Q\<close> which no protein hit has.\<close>

definition dangling_peptide :: PeptideIdentification where
  "dangling_peptide = example_peptide ''run1'' True ''Posterior Probability'' [(''PEPQ'', 9 / 10, [''Q''])]"

text \<open>
  An environment with a given engine, and the options of a default invocation
  (parameter search, runs pooled).
\<close>

definition example_read_probability :: "string \<Rightarrow> (real \<times> string) option" where
  "example_read_probability line =
     (if hasPrefix line ''0.9 '' then Some (9 / 10, drop 3 line)
      else if hasPrefix line ''0 '' then Some (0, drop 1 line)
      else None)"

definition example_env ::
  "(string \<Rightarrow> string list \<Rightarrow> (string \<Rightarrow> file_content option) \<Rightarrow> proc_result) \<Rightarrow> environment" where
  "example_env eng =
     \<lparr>engine = eng, temp_directory = ''/tmp/fido/'', is_directory = (\<lambda>path. False),
      dir_separator = ''/'',
      number_of_double = (\<lambda>x. if x = 9 / 10 then ''0.9'' else if x = 1 / 10 then ''0.1'' else ''0.01''),
      read_probability = example_read_probability,
      read_parameters = (\<lambda>text probs. probs)\<rparr>"

definition default_options :: options where
  "default_options =
     \<lparr>opt_in = ''in.idXML'', opt_out = ''out.idXML'', opt_exe = [],
      opt_prob_param = ''Posterior Probability_score'',
      separate_runs = False, keep_zero_group = False, no_cleanup = False, all_PSMs = False,
      group_level = False, accuracy = [], log2_states = 0, log2_states_precalc = 0,
      opt_prob_protein = 0, opt_prob_peptide = 0, opt_prob_spurious = 0, debug_level = 0\<rparr>"

text \<open>Two runs with a target and a decoy each, and one identification for each run.\<close>

definition two_runs :: "ProteinIdentification list" where
  "two_runs =
     [example_run ''run1'' [example_hit ''A'' ''target'' 0, example_hit ''B'' ''decoy'' 0],
      example_run ''run2'' [example_hit ''C'' ''target'' 0, example_hit ''D'' ''decoy'' 0]]"

definition two_peptides :: "PeptideIdentification list" where
  "two_peptides =
     [example_peptide ''run1'' True ''Posterior Probability'' [(''PEPA'', 9 / 10, [''A''])],
      example_peptide ''run2'' True ''Posterior Probability'' [(''PEPC'', 8 / 10, [''C''])]]"

text \<open>An engine that ends normally and prints nothing.\<close>

definition silent_engine ::
  "string \<Rightarrow> string list \<Rightarrow> (string \<Rightarrow> file_content option) \<Rightarrow> proc_result" where
  "silent_engine exe args fs = Finished [] []"

text \<open>A run whose protein hit carries no target/decoy annotation, the options of the direct
  mode, and an engine that fails until the graph file of a second run exists.\<close>

definition unannotated_run :: "ProteinIdentification list" where
  "unannotated_run =
     [example_run ''run1'' [\<lparr>accession = ''A'', target_decoy = None, prot_score = 0\<rparr>]]"

definition direct_options :: options where
  "direct_options =
     default_options\<lparr>opt_prob_protein := 9 / 10, opt_prob_peptide := 1 / 10,
                     opt_prob_spurious := 1 / 100\<rparr>"


text \<open>Engine output with two groups, one of probability zero, and the state in which a
  first call of \<open>runFido\<close> finds the variables of \<open>main_\<close> in direct mode.\<close>

definition example_output :: string where
  "example_output = ''0.9 { C_3 , A_1 }'' @ [newline] @ ''0 { B_2 , D_4 }'' @ [newline]"

definition printing_engine ::
  "string \<Rightarrow> string list \<Rightarrow> (string \<Rightarrow> file_content option) \<Rightarrow> proc_result" where
  "printing_engine exe args fs = Finished example_output []"

definition example_state :: fido_state where
  "example_state =
     \<lparr>peptides = two_peptides, fido_params = [''INPUT_GRAPH'', ''0.9'', ''0.1'', ''0.01''],
      prob_protein = 9 / 10, prob_peptide = 1 / 10, prob_spurious = 1 / 100,
      files = (\<lambda>path. None), events = []\<rparr>"

text \<open>What the two readable lines of \<open>example_output\<close> list; its last line is empty.\<close>

definition example_groups :: "(real \<times> string list) option list" where
  "example_groups = [Some (9 / 10, [''C_3'', ''A_1'']), Some (0, [''B_2'', ''D_4'']), None]"



section \<open>The sanitiser\<close>

lemma digit_cases: "d < 10 \<Longrightarrow> d = 0 \<or> d = 1 \<or> d = 2 \<or> d = 3 \<or> d = 4 \<or> d = 5 \<or> d = 6 \<or> d = 7 \<or> d = 8 \<or> d = (9::nat)"
  by arith

lemma of_char_digit_char: "d < 10 \<Longrightarrow> (of_char (digit_char d) :: nat) = 48 + d"
  using digit_cases [of d] by (auto simp: digit_char_def)

lemma digit_char_not_underscore: "d < 10 \<Longrightarrow> digit_char d \<noteq> CHR ''_''"
  using digit_cases [of d] by (auto simp: digit_char_def)

lemma digits_value_String_of_nat: "digits_value (String_of_nat n) = n"
proof (induction n rule: String_of_nat.induct)
  case (1 n)
  show ?case
  proof (cases "n < 10")
    case True
    then show ?thesis
      by (simp add: String_of_nat.simps [of n] digits_value_def of_char_digit_char)
  next
    case False
    with 1 have "digits_value (String_of_nat (n div 10)) = n div 10" by simp
    with False show ?thesis
      by (simp add: String_of_nat.simps [of n] digits_value_def of_char_digit_char)
  qed
qed

lemma String_of_nat_inj: "String_of_nat m = String_of_nat n \<Longrightarrow> m = n"
  by (metis digits_value_String_of_nat)

lemma String_of_nat_no_underscore: "CHR ''_'' \<notin> set (String_of_nat n)"
proof (induction n rule: String_of_nat.induct)
  case (1 n)
  show ?case
  proof (cases "n < 10")
    case True
    then show ?thesis
      using digit_char_not_underscore [of n] by (auto simp: String_of_nat.simps [of n])
  next
    case False
    with 1 have "CHR ''_'' \<notin> set (String_of_nat (n div 10))" by simp
    with False show ?thesis
      using digit_char_not_underscore [of "n mod 10"] by (auto simp: String_of_nat.simps [of n])
  qed
qed

lemma suffix_after_last_sep:
  assumes "p @ c # d = p' @ c # d'" "c \<notin> set d" "c \<notin> set d'"
  shows "d = d'"
proof -
  have "rev d @ c # rev p = rev d' @ c # rev p'"
    using arg_cong [OF assms(1), of rev] by simp
  then have "takeWhile (\<lambda>x. x \<noteq> c) (rev d @ c # rev p) = takeWhile (\<lambda>x. x \<noteq> c) (rev d' @ c # rev p')"
    by simp
  moreover have "takeWhile (\<lambda>x. x \<noteq> c) (rev d @ c # rev p) = rev d"
    using assms(2) by (auto simp: takeWhile_tail)
  moreover have "takeWhile (\<lambda>x. x \<noteq> c) (rev d' @ c # rev p') = rev d'"
    using assms(3) by (auto simp: takeWhile_tail)
  ultimately show ?thesis by simp
qed

lemma sanitized_token_counter: "sanitized_token a i = sanitized_token b j \<Longrightarrow> i = j"
  unfolding sanitized_token_def
  using suffix_after_last_sep [of "valid_prefix a" "CHR ''_''" "String_of_nat i" "valid_prefix b" "String_of_nat j"]
  by (simp add: String_of_nat_no_underscore String_of_nat_inj)

lemma token_table_Cons:
  "token_table (a # as) c = (a, sanitized_token a c) # token_table as (Suc c)"
proof -
  have "[0..<length (a # as)] = 0 # map Suc [0..<length as]"
    by (simp add: upt_conv_Cons map_Suc_upt del: upt_Suc)
  then show ?thesis
    by (simp add: token_table_def comp_def del: upt_Suc)
qed

lemma sanitize_loop_table:
  assumes "distinct as" "set as \<inter> fst ` set m = {}"
    and "\<forall>p \<in> set m. \<exists>b k. k < c \<and> snd p = sanitized_token b k"
  shows "sanitize_loop as c m = m @ token_table as c"
  using assms
proof (induction as arbitrary: c m)
  case Nil
  then show ?case by (simp add: token_table_def)
next
  case (Cons a as)
  have fresh_l: "a \<notin> fst ` set m" using Cons.prems(2) by auto
  have fresh_r: "sanitized_token a c \<notin> snd ` set m"
  proof
    assume "sanitized_token a c \<in> snd ` set m"
    then obtain p where "p \<in> set m" "snd p = sanitized_token a c" by auto
    with Cons.prems(3) obtain b k where "k < c" "sanitized_token a c = sanitized_token b k"
      by metis
    then show False using sanitized_token_counter by blast
  qed
  have ins: "bimap_insert (a, sanitized_token a c) m = m @ [(a, sanitized_token a c)]"
    using fresh_l fresh_r by (simp add: bimap_insert_def)
  have "sanitize_loop as (Suc c) (m @ [(a, sanitized_token a c)])
        = (m @ [(a, sanitized_token a c)]) @ token_table as (Suc c)"
  proof (rule Cons.IH)
    show "distinct as" using Cons.prems(1) by simp
    show "set as \<inter> fst ` set (m @ [(a, sanitized_token a c)]) = {}"
      using Cons.prems(1,2) by auto
    show "\<forall>p\<in>set (m @ [(a, sanitized_token a c)]). \<exists>b k. k < Suc c \<and> snd p = sanitized_token b k"
    proof
      fix p assume "p \<in> set (m @ [(a, sanitized_token a c)])"
      then consider "p \<in> set m" | "p = (a, sanitized_token a c)" by auto
      then show "\<exists>b k. k < Suc c \<and> snd p = sanitized_token b k"
      proof cases
        case 1
        with Cons.prems(3) obtain b k where "k < c" "snd p = sanitized_token b k" by blast
        then have "k < Suc c \<and> snd p = sanitized_token b k" by simp
        then show ?thesis by blast
      next
        case 2
        then have "c < Suc c \<and> snd p = sanitized_token a c" by simp
        then show ?thesis by blast
      qed
    qed
  qed
  then show ?case by (simp add: ins token_table_Cons)
qed

lemma fold_insort_insert_props:
  "sorted accs \<Longrightarrow> distinct accs \<Longrightarrow>
   sorted (fold (\<lambda>hit accs'. insort_insert (f hit) accs') hs accs) \<and>
   distinct (fold (\<lambda>hit accs'. insort_insert (f hit) accs') hs accs) \<and>
   set (fold (\<lambda>hit accs'. insort_insert (f hit) accs') hs accs) = set accs \<union> f ` set hs"
  by (induction hs arbitrary: accs)
     (auto simp: sorted_insort_insert distinct_insort_insert set_insort_insert)

lemma collect_fold_props:
  "sorted accs \<Longrightarrow> distinct accs \<Longrightarrow>
   sorted (fold (\<lambda>prot accs. fold (\<lambda>hit accs'. insort_insert (accession hit) accs') (hits prot) accs) ps accs) \<and>
   distinct (fold (\<lambda>prot accs. fold (\<lambda>hit accs'. insort_insert (accession hit) accs') (hits prot) accs) ps accs) \<and>
   set (fold (\<lambda>prot accs. fold (\<lambda>hit accs'. insort_insert (accession hit) accs') (hits prot) accs) ps accs)
     = set accs \<union> (\<Union>p \<in> set ps. accession ` set (hits p))"
proof (induction ps arbitrary: accs)
  case Nil
  then show ?case by simp
next
  case (Cons p ps)
  from fold_insort_insert_props [OF Cons.prems, of accession "hits p"]
  have s: "sorted (fold (\<lambda>hit accs'. insort_insert (accession hit) accs') (hits p) accs)"
    and d: "distinct (fold (\<lambda>hit accs'. insort_insert (accession hit) accs') (hits p) accs)"
    and e: "set (fold (\<lambda>hit accs'. insort_insert (accession hit) accs') (hits p) accs) = set accs \<union> accession ` set (hits p)"
    by blast+
  from Cons.IH [OF s d] e show ?case by (simp add: Un_assoc)
qed

lemma collect_accessions_props:
  "sorted (collect_accessions ps)" "distinct (collect_accessions ps)"
  "set (collect_accessions ps) = (\<Union>p \<in> set ps. accession ` set (hits p))"
  using collect_fold_props [of "[]" ps] by (simp_all add: collect_accessions_def)

lemma sanitize_accessions_table:
  "sanitize_accessions ps = token_table (collect_accessions ps) 1"
  unfolding sanitize_accessions_def
  using sanitize_loop_table [of "collect_accessions ps" "[]" 1]
  by (simp add: collect_accessions_props)

lemma token_table_fst: "map fst (token_table as c) = as"
  by (simp add: token_table_def comp_def map_nth)

lemma token_table_left:
  assumes "distinct as" "i < length as"
  shows "left_find (token_table as c) (as ! i) = Some (sanitized_token (as ! i) (c + i))"
proof -
  have "(as ! i, sanitized_token (as ! i) (c + i)) \<in> set (token_table as c)"
    using assms(2) by (auto simp: token_table_def)
  moreover have "distinct (map fst (token_table as c))"
    using assms(1) by (simp add: token_table_fst)
  ultimately show ?thesis by (simp add: left_find_def)
qed

lemma token_table_snd_distinct: "distinct (map (\<lambda>p. snd p) (token_table as c))"
proof -
  have "inj_on (\<lambda>i. sanitized_token (as ! i) (c + i)) (set [0..<length as])"
    by (rule inj_onI) (drule sanitized_token_counter, simp)
  then show ?thesis
    by (simp add: token_table_def comp_def distinct_map)
qed

lemma token_table_right:
  assumes "i < length as"
  shows "right_find (token_table as c) (sanitized_token (as ! i) (c + i)) = Some (as ! i)"
proof -
  have "(sanitized_token (as ! i) (c + i), as ! i) \<in> set (map (\<lambda>p. (snd p, fst p)) (token_table as c))"
    using assms by (auto simp: token_table_def)
  moreover have "distinct (map fst (map (\<lambda>p. (snd p, fst p)) (token_table as c)))"
    using token_table_snd_distinct [of as c] by (simp add: comp_def)
  ultimately show ?thesis unfolding right_find_def by (rule map_of_is_SomeI [rotated])
qed

text \<open>
  Claim C2. With \<open>sanitize\<close> the left and \<open>desanitize\<close> the right lookup of the bimap
  that \<open>main_\<close> builds: the registered accessions are the accessions of all protein hits,
  as a sorted set without duplicates; the token of the \<open>i\<close>-th of them (counting from 0)
  is its valid prefix, an underscore and the counter \<open>i + 1\<close>; de-sanitising that token
  gives the accession back; and no two accessions have the same token.
\<close>

theorem sanitize_roundtrip:
  "let accs = collect_accessions proteins; sa = sanitize_accessions proteins in
     sorted accs \<and> distinct accs \<and>
     set accs = (\<Union>p \<in> set proteins. accession ` set (hits p)) \<and>
     (\<forall>i < length accs.
        left_find sa (accs ! i) = Some (valid_prefix (accs ! i) @ ''_'' @ String_of_nat (Suc i)) \<and>
        right_find sa (valid_prefix (accs ! i) @ ''_'' @ String_of_nat (Suc i)) = Some (accs ! i)) \<and>
     (\<forall>a b t. left_find sa a = Some t \<and> left_find sa b = Some t \<longrightarrow> a = b)"
proof -
  let ?accs = "collect_accessions proteins"
  let ?sa = "sanitize_accessions proteins"
  have tab: "?sa = token_table ?accs 1" by (rule sanitize_accessions_table)
  have d: "distinct ?accs" by (rule collect_accessions_props)
  have look: "left_find ?sa (?accs ! i) = Some (valid_prefix (?accs ! i) @ ''_'' @ String_of_nat (Suc i)) \<and>
      right_find ?sa (valid_prefix (?accs ! i) @ ''_'' @ String_of_nat (Suc i)) = Some (?accs ! i)"
    if "i < length ?accs" for i
    using token_table_left [OF d that, of 1] token_table_right [OF that, of 1]
    by (simp add: tab sanitized_token_def)
  have inj: "a = b" if a: "left_find ?sa a = Some t" and b: "left_find ?sa b = Some t" for a b t
  proof -
    from a have "(a, t) \<in> set (token_table ?accs 1)"
      unfolding tab left_find_def by (rule map_of_SomeD)
    then obtain i where i: "a = ?accs ! i" "t = sanitized_token (?accs ! i) (1 + i)"
      by (auto simp: token_table_def)
    from b have "(b, t) \<in> set (token_table ?accs 1)"
      unfolding tab left_find_def by (rule map_of_SomeD)
    then obtain j where j: "b = ?accs ! j" "t = sanitized_token (?accs ! j) (1 + j)"
      by (auto simp: token_table_def)
    from i(2) j(2) have "1 + i = 1 + j" by (metis sanitized_token_counter)
    with i(1) j(1) show ?thesis by simp
  qed
  from collect_accessions_props [of proteins] look inj show ?thesis
    unfolding Let_def by blast
qed

theorem sanitize_roundtrip_example:
  "collect_accessions colliding_runs = [''P1 a'', ''P1,b''] \<and>
   left_find (sanitize_accessions colliding_runs) ''P1 a'' = Some ''P1_1'' \<and>
   right_find (sanitize_accessions colliding_runs) ''P1_1'' = Some ''P1 a'' \<and>
   left_find (sanitize_accessions colliding_runs) ''P1,b'' = Some ''P1_2'' \<and>
   right_find (sanitize_accessions colliding_runs) ''P1_2'' = Some ''P1,b''"
proof -
  have accs: "collect_accessions colliding_runs = [''P1 a'', ''P1,b'']"
    by (simp add: collect_accessions_def colliding_runs_def example_run_def example_hit_def
        insort_insert_key_def)
  have v: "valid_prefix ''P1 a'' = ''P1''" "valid_prefix ''P1,b'' = ''P1''"
    by (simp_all add: valid_prefix_def unsafe_chars_def)
  have n: "String_of_nat (Suc 0) = ''1''" "String_of_nat (Suc (Suc 0)) = ''2''"
    by (simp_all add: String_of_nat.simps digit_char_def)
  from sanitize_roundtrip [of colliding_runs]
  have "\<forall>i < 2.
        left_find (sanitize_accessions colliding_runs) ([''P1 a'', ''P1,b''] ! i)
          = Some (valid_prefix ([''P1 a'', ''P1,b''] ! i) @ ''_'' @ String_of_nat (Suc i)) \<and>
        right_find (sanitize_accessions colliding_runs)
            (valid_prefix ([''P1 a'', ''P1,b''] ! i) @ ''_'' @ String_of_nat (Suc i))
          = Some ([''P1 a'', ''P1,b''] ! i)"
    unfolding Let_def accs by simp
  then have "(left_find (sanitize_accessions colliding_runs) ''P1 a'' = Some (''P1'' @ ''_'' @ ''1'') \<and>
        right_find (sanitize_accessions colliding_runs) (''P1'' @ ''_'' @ ''1'') = Some ''P1 a'') \<and>
       (left_find (sanitize_accessions colliding_runs) ''P1,b'' = Some (''P1'' @ ''_'' @ ''2'') \<and>
        right_find (sanitize_accessions colliding_runs) (''P1'' @ ''_'' @ ''2'') = Some ''P1,b'')"
    using v n by (simp add: numeral_2_eq_2 less_Suc_eq all_conj_distrib)
  with accs show ?thesis by simp
qed

section \<open>Pooling runs\<close>

lemma map_assign_keys: "set (map fst (map_assign k v m)) = insert k (set (map fst m))"
proof (induction m)
  case Nil
  then show ?case by simp
next
  case (Cons e m)
  obtain k' v' where e: "e = (k', v')" by (cases e)
  from Cons.IH show ?case unfolding e by (simp add: insert_commute)
qed

lemma map_assign_sorted:
  "sorted (map fst m) \<Longrightarrow> distinct (map fst m) \<Longrightarrow>
   sorted (map fst (map_assign k v m)) \<and> distinct (map fst (map_assign k v m))"
proof (induction m)
  case Nil
  then show ?case by simp
next
  case (Cons e m)
  obtain k' v' where e: "e = (k', v')" by (cases e)
  from Cons.prems have tl: "sorted (map fst m)" "distinct (map fst m)" by simp_all
  note IH = Cons.IH [OF tl]
  from Cons.prems e have lt: "\<forall>x \<in> set (map fst m). k' < x"
    by (auto simp: order_less_le)
  show ?case
  proof (cases "k < k'")
    case True
    with Cons.prems e lt show ?thesis by (auto simp: order_less_le)
  next
    case False
    show ?thesis
    proof (cases "k = k'")
      case True
      with Cons.prems e show ?thesis by simp
    next
      case ne: False
      with False have "k' < k" by simp
      with IH lt e False ne Cons.prems show ?thesis
        using map_assign_keys [of k v m] by (auto simp: order_less_le)
    qed
  qed
qed

lemma map_of_map_assign:
  "sorted (map fst m) \<Longrightarrow> distinct (map fst m) \<Longrightarrow>
   map_of (map_assign k v m) a = (if a = k then Some v else map_of m a)"
proof (induction m)
  case Nil
  then show ?case by simp
next
  case (Cons e m)
  obtain k' v' where e: "e = (k', v')" by (cases e)
  from Cons.prems have tl: "sorted (map fst m)" "distinct (map fst m)" by simp_all
  from Cons.IH [OF tl] show ?case unfolding e by auto
qed

lemma fold_fold_concat: "fold (\<lambda>p. fold g (f p)) ps s = fold g (concat (map f ps)) s"
  by (induction ps arbitrary: s) simp_all

lemma build_hit_map_flat:
  "build_hit_map ps = fold (\<lambda>hit. map_assign (accession hit) hit) (rev (concat (map hits ps))) []"
proof -
  have "build_hit_map ps
        = fold (\<lambda>hit. map_assign (accession hit) hit) (concat (map (\<lambda>p. rev (hits p)) (rev ps))) []"
    unfolding build_hit_map_def by (rule fold_fold_concat)
  also have "concat (map (\<lambda>p. rev (hits p)) (rev ps)) = rev (concat (map hits ps))"
    by (simp add: rev_concat rev_map comp_def)
  finally show ?thesis .
qed

lemma fold_assign_rev:
  "sorted (map fst (fold (\<lambda>hit. map_assign (accession hit) hit) (rev ys) [])) \<and>
   distinct (map fst (fold (\<lambda>hit. map_assign (accession hit) hit) (rev ys) [])) \<and>
   set (map fst (fold (\<lambda>hit. map_assign (accession hit) hit) (rev ys) [])) = accession ` set ys \<and>
   (\<forall>a. map_of (fold (\<lambda>hit. map_assign (accession hit) hit) (rev ys) []) a
        = find (\<lambda>h. accession h = a) ys)"
proof (induction ys)
  case Nil
  then show ?case by simp
next
  case (Cons y ys)
  let ?M = "fold (\<lambda>hit. map_assign (accession hit) hit) (rev ys) []"
  from Cons.IH have s: "sorted (map fst ?M)" and d: "distinct (map fst ?M)"
    and k: "set (map fst ?M) = accession ` set ys"
    and l: "\<And>a. map_of ?M a = find (\<lambda>h. accession h = a) ys"
    by blast+
  have step: "fold (\<lambda>hit. map_assign (accession hit) hit) (rev (y # ys)) []
              = map_assign (accession y) y ?M"
    by simp
  show ?case
    unfolding step
    using map_assign_sorted [OF s d, of "accession y" y]
      map_assign_keys [of "accession y" y ?M] k
      map_of_map_assign [OF s d, of "accession y" y] l
    by auto
qed

lemma merged_hits_map: "merged_hits ps = map snd (build_hit_map ps)"
proof -
  have "fold (\<lambda>entry hs. hs @ [snd entry]) xs acc = acc @ map snd xs" for xs :: "(string \<times> ProteinHit) list" and acc
    by (induction xs arbitrary: acc) simp_all
  then show ?thesis by (simp add: merged_hits_def)
qed

lemma map_of_sound_entry:
  "distinct (map fst m) \<Longrightarrow> (k, v) \<in> set m \<Longrightarrow> map_of m k = Some v"
  by simp

lemma find_Some_accession: "find (\<lambda>h. accession h = a) ys = Some h \<Longrightarrow> accession h = a"
  by (auto simp: find_Some_iff)

lemma build_hit_map_entry_key:
  assumes "(k, h) \<in> set (build_hit_map ps)"
  shows "accession h = k \<and> find (\<lambda>x. accession x = k) (concat (map hits ps)) = Some h"
proof -
  let ?ys = "concat (map hits ps)"
  from fold_assign_rev [of ?ys]
  have d: "distinct (map fst (build_hit_map ps))"
    and l: "\<And>a. map_of (build_hit_map ps) a = find (\<lambda>h. accession h = a) ?ys"
    unfolding build_hit_map_flat by blast+
  from d assms have "map_of (build_hit_map ps) k = Some h" by simp
  with l have f: "find (\<lambda>x. accession x = k) ?ys = Some h" by simp
  with find_Some_accession [OF f] show ?thesis by simp
qed

lemma merged_hits_accessions: "map accession (merged_hits ps) = map fst (build_hit_map ps)"
  unfolding merged_hits_map using build_hit_map_entry_key [of _ _ ps]
  by (auto simp: comp_def)


text \<open>
  Claim C4. The hits of the synthesized run of the pooled branch: their accessions are
  strictly ascending (the hits were inserted in ascending accession order), every accession
  that is a hit of some run occurs exactly once, and the hit kept for an accession is the
  first one with that accession in forward order (runs in order, hits in order within a run).
\<close>

theorem pooled_merge_first_occurrence:
  "sorted (map accession (hits (pooled_run ps))) \<and>
   distinct (map accession (hits (pooled_run ps))) \<and>
   set (map accession (hits (pooled_run ps))) = (\<Union>p \<in> set ps. accession ` set (hits p)) \<and>
   (\<forall>h \<in> set (hits (pooled_run ps)).
      find (\<lambda>x. accession x = accession h) (concat (map hits ps)) = Some h)"
proof -
  let ?ys = "concat (map hits ps)"
  have hs: "hits (pooled_run ps) = merged_hits ps" by (simp add: pooled_run_def)
  from fold_assign_rev [of ?ys]
  have s: "sorted (map fst (build_hit_map ps))" and d: "distinct (map fst (build_hit_map ps))"
    and k: "set (map fst (build_hit_map ps)) = accession ` set ?ys"
    unfolding build_hit_map_flat by blast+
  have first: "find (\<lambda>x. accession x = accession h) ?ys = Some h" if "h \<in> set (merged_hits ps)" for h
  proof -
    from that obtain k where "(k, h) \<in> set (build_hit_map ps)"
      unfolding merged_hits_map by auto
    from build_hit_map_entry_key [OF this] show ?thesis by simp
  qed
  have "accession ` set ?ys = (\<Union>p \<in> set ps. accession ` set (hits p))" by auto
  with s d k first show ?thesis
    unfolding hs merged_hits_accessions by simp
qed

theorem pooled_merge_first_occurrence_example:
  "hits (pooled_run overlapping_runs) =
     [example_hit ''A'' ''target'' 2, example_hit ''B'' ''decoy'' 1, example_hit ''C'' ''target'' 4] \<and>
   find (\<lambda>x. accession x = ''A'') (concat (map hits overlapping_runs)) = Some (example_hit ''A'' ''target'' 2)"
proof -
  have hs: "hits (pooled_run overlapping_runs) =
     [example_hit ''A'' ''target'' 2, example_hit ''B'' ''decoy'' 1, example_hit ''C'' ''target'' 4]"
    by (simp add: pooled_run_def merged_hits_def build_hit_map_def overlapping_runs_def
        example_run_def example_hit_def)
  have a: "accession (example_hit ''A'' ''target'' 2) = ''A''"
    by (simp add: example_hit_def)
  from pooled_merge_first_occurrence [of overlapping_runs]
  have "\<forall>h \<in> set (hits (pooled_run overlapping_runs)).
      find (\<lambda>x. accession x = accession h) (concat (map hits overlapping_runs)) = Some h"
    by blast
  then have "find (\<lambda>x. accession x = accession (example_hit ''A'' ''target'' 2))
      (concat (map hits overlapping_runs)) = Some (example_hit ''A'' ''target'' 2)"
    unfolding hs by simp
  with hs a show ?thesis by simp
qed

section \<open>Graph encoding\<close>

lemma length_insert_sorted: "length (insert_sorted before x xs) = Suc (length xs)"
  by (induction xs) simp_all

lemma set_insert_sorted: "set (insert_sorted before x xs) = insert x (set xs)"
  by (induction xs) auto

lemma length_stable_sort: "length (stable_sort before xs) = length xs"
  by (induction xs) (simp_all add: stable_sort_def length_insert_sorted)

lemma set_stable_sort: "set (stable_sort before xs) = set xs"
  by (induction xs) (simp_all add: stable_sort_def set_insert_sorted)

lemma sorted_hits_nonempty:
  "pep_hits pep \<noteq> [] \<Longrightarrow> pep_hits (PeptideIdentification_sort pep) = best_hit pep # tl (pep_hits (PeptideIdentification_sort pep))"
proof -
  assume "pep_hits pep \<noteq> []"
  moreover have "length (pep_hits (PeptideIdentification_sort pep)) = length (pep_hits pep)"
    by (simp add: PeptideIdentification_sort_def length_stable_sort)
  ultimately have "pep_hits (PeptideIdentification_sort pep) \<noteq> []" by auto
  then show ?thesis by (simp add: best_hit_def)
qed

lemma sorted_pep_fields:
  "higher_score_better (PeptideIdentification_sort pep) = higher_score_better pep"
  "score_type (PeptideIdentification_sort pep) = score_type pep"
  "pep_identifier (PeptideIdentification_sort pep) = pep_identifier pep"
  by (simp_all add: PeptideIdentification_sort_def)

lemma best_hit_in_hits: "pep_hits pep \<noteq> [] \<Longrightarrow> best_hit pep \<in> set (pep_hits pep)"
proof -
  assume ne: "pep_hits pep \<noteq> []"
  from sorted_hits_nonempty [OF ne]
  have "best_hit pep \<in> set (pep_hits (PeptideIdentification_sort pep))"
    by (metis list.set_intros(1))
  then show ?thesis
    by (simp add: PeptideIdentification_sort_def set_stable_sort split: if_splits)
qed

lemma set_extractProteinAccessions:
  "set (extractProteinAccessions h) = set (peptide_evidences h)"
proof -
  have "set (fold insort_insert xs acc) = set acc \<union> set xs" for xs acc :: "string list"
    by (induction xs arbitrary: acc) (auto simp: set_insort_insert)
  then show ?thesis by (simp add: extractProteinAccessions_def)
qed

text \<open>The accession loop.\<close>

lemma accession_lines_registered:
  "\<forall>a \<in> set accs. a \<noteq> [] \<longrightarrow> left_find sa a \<noteq> None \<Longrightarrow>
   \<exists>out'. accession_lines sa accs out = Inr out' \<and> probability_lines out' = probability_lines out"
proof (induction accs arbitrary: out)
  case Nil
  then show ?case by simp
next
  case (Cons a accs)
  show ?case
  proof (cases "a = []")
    case True
    with Cons show ?thesis by simp
  next
    case False
    with Cons.prems obtain t where t: "left_find sa a = Some t" by auto
    from Cons.prems have "\<forall>a \<in> set accs. a \<noteq> [] \<longrightarrow> left_find sa a \<noteq> None" by simp
    from Cons.IH [OF this, of "out @ [R t]"] obtain out'
      where "accession_lines sa accs (out @ [R t]) = Inr out'"
        and "probability_lines out' = probability_lines (out @ [R t])" by blast
    moreover have "probability_lines (out @ [R t]) = probability_lines out"
      by (induction out rule: probability_lines.induct) simp_all
    ultimately show ?thesis using False t by simp
  qed
qed

lemma accession_lines_probabilities:
  "accession_lines sa accs out = Inr out' \<Longrightarrow> probability_lines out' = probability_lines out"
proof (induction accs arbitrary: out)
  case Nil
  then show ?case by simp
next
  case (Cons a accs)
  have app: "probability_lines (out @ [R t]) = probability_lines out" for t
    by (induction out rule: probability_lines.induct) simp_all
  from Cons show ?case
    by (auto split: if_splits option.splits simp: app)
qed

lemma accession_lines_error:
  "accession_lines sa accs out = Inl e \<Longrightarrow> e = EndIteratorDereferenced"
  by (induction accs arbitrary: out) (auto split: if_splits option.splits)

lemma probability_lines_snoc_P: "probability_lines (ls @ [P p]) = probability_lines ls @ [p]"
  by (induction ls rule: probability_lines.induct) simp_all

lemma probability_lines_snoc_E: "probability_lines (ls @ [E s]) = probability_lines ls"
  by (induction ls rule: probability_lines.induct) simp_all

text \<open>One pass of the loop.\<close>

lemma psm_entry_skipped:
  "\<not> encoded ident pep \<Longrightarrow> \<exists>pep'. psm_entry sa prob_param ident pep st = (None, pep', st)"
proof (cases "(ident \<noteq> [] \<and> pep_identifier pep \<noteq> ident) \<or> pep_hits pep = []")
  case True
  then show ?thesis by (simp add: psm_entry_def)
next
  case False
  assume "\<not> encoded ident pep"
  with False have skip: "sequence (best_hit pep) = [] \<or> extractProteinAccessions (best_hit pep) = []"
    by (simp add: encoded_def)
  from False have "pep_hits pep \<noteq> []" by simp
  from sorted_hits_nonempty [OF this] obtain tl' where
    "pep_hits (PeptideIdentification_sort pep) = best_hit pep # tl'" by blast
  with False skip show ?thesis
    by (auto simp: psm_entry_def Let_def)
qed

lemma psm_entry_encoded:
  assumes "encoded ident pep"
    and "resolve_score prob_param (PeptideIdentification_sort pep) (best_hit pep) (warned_once st)
           = (s, reason, w, ws)"
  shows "psm_entry sa prob_param ident pep st =
     (let st1 = st\<lparr>warned_once := w, warnings := warnings st @ ws\<rparr>
      in if check_range s reason \<noteq> []
         then (Some (MissingInformation (unsuitable_score_message (check_range s reason))),
               PeptideIdentification_sort pep, st1)
         else (case accession_lines sa (extractProteinAccessions (best_hit pep))
                      (graph_out st @ [E (sequence (best_hit pep))]) of
                 Inl e \<Rightarrow> (Some e, PeptideIdentification_sort pep,
                           st1\<lparr>graph_out := graph_out st @ [E (sequence (best_hit pep))]\<rparr>)
               | Inr out \<Rightarrow> (None, PeptideIdentification_sort pep, st1\<lparr>graph_out := out @ [P s]\<rparr>)))"
proof -
  from assms(1) have f: "\<not> ((ident \<noteq> [] \<and> pep_identifier pep \<noteq> ident) \<or> pep_hits pep = [])"
    and g: "\<not> (sequence (best_hit pep) = [] \<or> extractProteinAccessions (best_hit pep) = [])"
    by (simp_all add: encoded_def)
  from f have "pep_hits pep \<noteq> []" by simp
  from sorted_hits_nonempty [OF this] obtain tl' where
    h: "pep_hits (PeptideIdentification_sort pep) = best_hit pep # tl'" by blast
  show ?thesis
    unfolding psm_entry_def using f g h assms(2)
    by (auto simp: Let_def split: sum.splits)
qed


lemma resolve_score_warned:
  "resolve_score prob_param pep hit b = (s, reason, w, ws) \<Longrightarrow>
   \<exists>w' ws'. resolve_score prob_param pep hit b' = (s, reason, w', ws')"
  by (auto simp: resolve_score_def Let_def split: if_splits)


text \<open>The loop, for identifications whose scores are error probabilities.\<close>

lemma resolve_score_converted:
  assumes "encoded ident pep" "converted prob_param ident pep"
  shows "resolve_score prob_param (PeptideIdentification_sort pep) (best_hit pep) b
     = (double_minus (Finite 1) (score (best_hit pep)), [], True, if b then [] else [pep_warning])"
  using assms
  by (auto simp: converted_def resolve_score_def sorted_pep_fields error_probability_type_def Let_def)

lemma psm_loop_converted:
  assumes "\<forall>pep \<in> set peps. converted prob_param ident pep"
    and "psm_loop sa prob_param ident peps st = (r, peps', st')"
  shows "warnings st' = warnings st @
            (if (\<exists>pep \<in> set peps. encoded ident pep) \<and> \<not> warned_once st then [pep_warning] else []) \<and>
         warned_once st' = (warned_once st \<or> (\<exists>pep \<in> set peps. encoded ident pep)) \<and>
         (r = None \<longrightarrow> probability_lines (graph_out st') = probability_lines (graph_out st) @
            map (\<lambda>pep. double_minus (Finite 1) (score (best_hit pep))) (filter (encoded ident) peps))"
  using assms
proof (induction peps arbitrary: st r peps' st')
  case Nil
  then show ?case by simp
next
  case (Cons pep peps)
  from Cons.prems(1) have conv: "converted prob_param ident pep"
    and convs: "\<forall>pep \<in> set peps. converted prob_param ident pep" by simp_all
  show ?case
  proof (cases "encoded ident pep")
    case False
    from psm_entry_skipped [OF False, of sa prob_param st] obtain pep'
      where e: "psm_entry sa prob_param ident pep st = (None, pep', st)" by blast
    with Cons.prems(2) obtain ps' where "psm_loop sa prob_param ident peps st = (r, ps', st')"
      by (auto split: prod.splits)
    from Cons.IH [OF convs this] False show ?thesis by simp
  next
    case True
    let ?s = "double_minus (Finite 1) (score (best_hit pep))"
    let ?st1 = "st\<lparr>warned_once := True,
                    warnings := warnings st @ (if warned_once st then [] else [pep_warning])\<rparr>"
    note entry = psm_entry_encoded [OF True resolve_score_converted [OF True conv], of sa st]
    show ?thesis
    proof (cases "check_range ?s [] \<noteq> []")
      case bad: True
      with entry Cons.prems(2) have "r \<noteq> None" "st' = ?st1"
        by (auto simp: Let_def)
      with True show ?thesis by auto
    next
      case good: False
      show ?thesis
      proof (cases "accession_lines sa (extractProteinAccessions (best_hit pep))
                      (graph_out st @ [E (sequence (best_hit pep))])")
        case (Inl e)
        with entry good Cons.prems(2) have "r \<noteq> None"
          "st' = ?st1\<lparr>graph_out := graph_out st @ [E (sequence (best_hit pep))]\<rparr>"
          by (auto simp: Let_def)
        with True show ?thesis by auto
      next
        case (Inr out)
        let ?st2 = "?st1\<lparr>graph_out := out @ [P ?s]\<rparr>"
        from entry good Inr have e: "psm_entry sa prob_param ident pep st
            = (None, PeptideIdentification_sort pep, ?st2)"
          by (simp add: Let_def)
        with Cons.prems(2) obtain ps' where l: "psm_loop sa prob_param ident peps ?st2 = (r, ps', st')"
          by (auto split: prod.splits)
        from accession_lines_probabilities [OF Inr]
        have "probability_lines (out @ [P ?s]) = probability_lines (graph_out st) @ [?s]"
          by (simp add: probability_lines_snoc_P probability_lines_snoc_E)
        with Cons.IH [OF convs l] True show ?thesis by auto
      qed
    qed
  qed
qed




text \<open>
  Claim C7. In a batch in which every encoded identification has lower-is-better scores of
  one of the two error-probability types and no applicable alternate score field, the call
  logs the advisory exactly once if at least one identification is encoded (and not at all
  otherwise), however many there are; and when the call succeeds the probabilities written
  are \<open>1 - score\<close> of the best hits of the encoded identifications, in order
  (\<open>double_minus\<close> is the subtraction of scores).
\<close>

theorem error_probability_conversion:
  assumes "\<forall>pep \<in> set peps. encoded ident pep \<longrightarrow>
             \<not> higher_score_better pep \<and> error_probability_type (score_type pep) \<and>
             (prob_param = [] \<or> \<not> metaValueExists (best_hit pep) prob_param)"
  shows "case writePSMGraph sa peps prob_param ident of
           (r, peps', graph, warns) \<Rightarrow>
             warns = (if \<exists>pep \<in> set peps. encoded ident pep then [pep_warning] else []) \<and>
             (r = None \<longrightarrow> probability_lines graph =
                map (\<lambda>pep. double_minus (Finite 1) (score (best_hit pep))) (filter (encoded ident) peps))"
proof -
  let ?st = "\<lparr>graph_out = [], warned_once = False, warnings = []\<rparr>"
  obtain r peps' st' where l: "psm_loop sa prob_param ident peps ?st = (r, peps', st')"
    by (cases "psm_loop sa prob_param ident peps ?st") auto
  from assms have "\<forall>pep \<in> set peps. converted prob_param ident pep"
    by (simp add: converted_def)
  from psm_loop_converted [OF this l] l show ?thesis
    by (simp add: writePSMGraph_def)
qed

theorem error_probability_conversion_example:
  "snd (snd (snd (writePSMGraph (sanitize_accessions overlapping_runs) error_probability_batch [] [])))
     = [pep_warning] \<and>
   probability_lines
     (fst (snd (snd (writePSMGraph (sanitize_accessions overlapping_runs) error_probability_batch [] []))))
     = [Finite (4 / 5), Finite (3 / 4)]"
proof -
  have h: "\<forall>pep \<in> set error_probability_batch. encoded [] pep \<longrightarrow>
             \<not> higher_score_better pep \<and> error_probability_type (score_type pep) \<and>
             ([] = ([] :: string) \<or> \<not> metaValueExists (best_hit pep) [])"
    by code_simp
  have some: "\<exists>pep \<in> set error_probability_batch. encoded [] pep" by code_simp
  have ok: "fst (writePSMGraph (sanitize_accessions overlapping_runs) error_probability_batch [] [])
      = None" by code_simp
  have vals: "map (\<lambda>pep. double_minus (Finite 1) (score (best_hit pep))) (filter (encoded []) error_probability_batch)
      = [Finite (4 / 5), Finite (3 / 4)]" by code_simp
  from error_probability_conversion [OF h, of "sanitize_accessions overlapping_runs"] some ok vals
  show ?thesis by (auto split: prod.splits)
qed

section \<open>Lookups in the bimap during encoding\<close>

lemma left_find_registered:
  assumes "a \<in> all_accessions proteins"
  shows "left_find (sanitize_accessions proteins) a \<noteq> None"
proof -
  from assms have "a \<in> set (collect_accessions proteins)"
    by (simp add: all_accessions_def collect_accessions_props)
  then obtain i where i: "i < length (collect_accessions proteins)" "collect_accessions proteins ! i = a"
    by (auto simp: in_set_conv_nth)
  from token_table_left [OF collect_accessions_props(2) i(1), of 1] i(2)
  show ?thesis by (simp add: sanitize_accessions_table)
qed

lemma pooled_run_accession_set:
  "accession ` set (hits (pooled_run ps)) = all_accessions ps"
proof -
  have "set (map accession (hits (pooled_run ps))) = accession ` set (concat (map hits ps))"
    using fold_assign_rev [of "concat (map hits ps)"]
    by (simp add: pooled_run_def merged_hits_accessions build_hit_map_flat del: set_map)
  then show ?thesis by (auto simp: all_accessions_def)
qed

lemma gather_target_decoy_registered:
  "\<forall>h \<in> set hs. left_find sa (accession h) \<noteq> None \<Longrightarrow>
   gather_target_decoy sa hs sets \<noteq> Inl EndIteratorDereferenced"
proof (induction hs arbitrary: sets)
  case Nil
  then show ?case by simp
next
  case (Cons h hs)
  obtain targets decoys where s: "sets = (targets, decoys)" by (cases sets)
  from Cons.prems obtain t where t: "left_find sa (accession h) = Some t" by auto
  from Cons.prems have "\<forall>h \<in> set hs. left_find sa (accession h) \<noteq> None" by simp
  note IH = Cons.IH [OF this]
  show ?case unfolding s using t IH by simp
qed

lemma writeProteinLists_registered:
  assumes "\<forall>h \<in> set (hits p). left_find sa (accession h) \<noteq> None"
  shows "writeProteinLists sa p \<noteq> Inl EndIteratorDereferenced"
  using gather_target_decoy_registered [OF assms, of "([], [])"]
  by (auto simp: writeProteinLists_def split: sum.splits prod.splits)

lemma psm_entry_registered:
  assumes "\<forall>h \<in> set (pep_hits pep). \<forall>a \<in> set (peptide_evidences h). a \<noteq> [] \<longrightarrow> left_find sa a \<noteq> None"
  shows "fst (psm_entry sa prob_param ident pep st) \<noteq> Some EndIteratorDereferenced"
proof (cases "encoded ident pep")
  case False
  from psm_entry_skipped [OF False, of sa prob_param st] show ?thesis by auto
next
  case True
  then have "pep_hits pep \<noteq> []" by (simp add: encoded_def)
  from best_hit_in_hits [OF this] assms
  have reg: "\<forall>a \<in> set (extractProteinAccessions (best_hit pep)). a \<noteq> [] \<longrightarrow> left_find sa a \<noteq> None"
    by (simp add: set_extractProteinAccessions)
  obtain s reason w ws where
    r: "resolve_score prob_param (PeptideIdentification_sort pep) (best_hit pep) (warned_once st)
          = (s, reason, w, ws)"
    by (cases "resolve_score prob_param (PeptideIdentification_sort pep) (best_hit pep) (warned_once st)")
       auto
  from accession_lines_registered [OF reg, of "graph_out st @ [E (sequence (best_hit pep))]"]
  obtain out where "accession_lines sa (extractProteinAccessions (best_hit pep))
      (graph_out st @ [E (sequence (best_hit pep))]) = Inr out" by blast
  then show ?thesis
    by (simp add: psm_entry_encoded [OF True r] Let_def)
qed

lemma psm_loop_registered:
  assumes "\<forall>pep \<in> set peps. \<forall>h \<in> set (pep_hits pep). \<forall>a \<in> set (peptide_evidences h).
             a \<noteq> [] \<longrightarrow> left_find sa a \<noteq> None"
  shows "fst (psm_loop sa prob_param ident peps st) \<noteq> Some EndIteratorDereferenced"
  using assms
proof (induction peps arbitrary: st)
  case Nil
  then show ?case by simp
next
  case (Cons pep peps)
  from Cons.prems have p: "\<forall>h \<in> set (pep_hits pep). \<forall>a \<in> set (peptide_evidences h).
      a \<noteq> [] \<longrightarrow> left_find sa a \<noteq> None"
    and ps: "\<forall>pep \<in> set peps. \<forall>h \<in> set (pep_hits pep). \<forall>a \<in> set (peptide_evidences h).
      a \<noteq> [] \<longrightarrow> left_find sa a \<noteq> None" by simp_all
  obtain r pep' st' where e: "psm_entry sa prob_param ident pep st = (r, pep', st')"
    by (cases "psm_entry sa prob_param ident pep st") auto
  from psm_entry_registered [OF p, of prob_param ident st] e
  have r: "r \<noteq> Some EndIteratorDereferenced" by simp
  from Cons.IH [OF ps, of st'] r e show ?case
    by (auto split: prod.splits option.splits)
qed


text \<open>
  Claim C10, as stated, fails: the bimap is built from the accessions of the protein hits
  only, and \<open>writePSMGraph\<close> looks up the accessions of peptide hits. A peptide hit that
  refers to an accession which no protein hit has reaches the dereference of \<open>end()\<close>.
\<close>

theorem unregistered_peptide_accession:
  "fst (writePSMGraph (sanitize_accessions overlapping_runs) [dangling_peptide] [] [])
     = Some EndIteratorDereferenced"
  by code_simp

text \<open>
  Claim C10, amended. With the bimap built from all protein hits of all runs: the lookups of
  \<open>writeProteinLists\<close> never fail, for any of the loaded runs and for the pooled run; and
  the lookups of \<open>writePSMGraph\<close> never fail provided every non-empty accession that a
  peptide hit refers to is the accession of some protein hit.
\<close>

theorem registered_lookups:
  "((\<forall>pep \<in> set peps. \<forall>h \<in> set (pep_hits pep). \<forall>a \<in> set (peptide_evidences h).
       a \<noteq> [] \<longrightarrow> a \<in> all_accessions proteins) \<longrightarrow>
    fst (writePSMGraph (sanitize_accessions proteins) peps prob_param ident)
      \<noteq> Some EndIteratorDereferenced) \<and>
   (\<forall>p \<in> set proteins.
      writeProteinLists (sanitize_accessions proteins) p \<noteq> Inl EndIteratorDereferenced) \<and>
   writeProteinLists (sanitize_accessions proteins) (pooled_run proteins)
     \<noteq> Inl EndIteratorDereferenced"
proof (intro conjI impI ballI)
  assume "\<forall>pep \<in> set peps. \<forall>h \<in> set (pep_hits pep). \<forall>a \<in> set (peptide_evidences h).
       a \<noteq> [] \<longrightarrow> a \<in> all_accessions proteins"
  then have "\<forall>pep \<in> set peps. \<forall>h \<in> set (pep_hits pep). \<forall>a \<in> set (peptide_evidences h).
       a \<noteq> [] \<longrightarrow> left_find (sanitize_accessions proteins) a \<noteq> None"
    using left_find_registered by blast
  from psm_loop_registered [OF this, of prob_param ident
      "\<lparr>graph_out = [], warned_once = False, warnings = []\<rparr>"]
  show "fst (writePSMGraph (sanitize_accessions proteins) peps prob_param ident)
      \<noteq> Some EndIteratorDereferenced"
    by (auto simp: writePSMGraph_def split: prod.splits)
next
  fix p assume "p \<in> set proteins"
  then have "\<forall>h \<in> set (hits p). accession h \<in> all_accessions proteins"
    by (auto simp: all_accessions_def)
  then have "\<forall>h \<in> set (hits p). left_find (sanitize_accessions proteins) (accession h) \<noteq> None"
    using left_find_registered by blast
  then show "writeProteinLists (sanitize_accessions proteins) p \<noteq> Inl EndIteratorDereferenced"
    by (rule writeProteinLists_registered)
next
  have "\<forall>h \<in> set (hits (pooled_run proteins)). accession h \<in> all_accessions proteins"
    using pooled_run_accession_set [of proteins] by auto
  then have "\<forall>h \<in> set (hits (pooled_run proteins)).
      left_find (sanitize_accessions proteins) (accession h) \<noteq> None"
    using left_find_registered by blast
  then show "writeProteinLists (sanitize_accessions proteins) (pooled_run proteins)
      \<noteq> Inl EndIteratorDereferenced"
    by (rule writeProteinLists_registered)
qed

theorem registered_lookups_example:
  "fst (writePSMGraph (sanitize_accessions overlapping_runs) error_probability_batch [] [])
     \<noteq> Some EndIteratorDereferenced \<and>
   writeProteinLists (sanitize_accessions overlapping_runs) (overlapping_runs ! 0)
     \<noteq> Inl EndIteratorDereferenced"
proof -
  have ref: "\<forall>pep \<in> set error_probability_batch. \<forall>h \<in> set (pep_hits pep).
      \<forall>a \<in> set (peptide_evidences h). a \<noteq> [] \<longrightarrow> a \<in> all_accessions overlapping_runs"
    unfolding all_accessions_def by code_simp
  have mem: "overlapping_runs ! 0 \<in> set overlapping_runs"
    by (simp add: overlapping_runs_def)
  from registered_lookups [of error_probability_batch overlapping_runs "[]" "[]"] ref mem
  show ?thesis by blast
qed

section \<open>Separate runs\<close>

text \<open>
  Claim C1 against the code: two runs processed separately, in parameter-search mode. The
  graph and the protein lists of the second run are written to the files numbered 2, but
  the engine is started for the second run with the files numbered 1: \<open>runFido\<close> replaces
  the placeholders in the parameter list of \<open>main_\<close> itself, so that the second call finds
  no placeholder left.
\<close>

theorem separate_runs_second_invocation:
  "events (snd (main (example_env silent_engine) (default_options\<lparr>separate_runs := True\<rparr>)
                 two_runs two_peptides)) =
     [Written ''/tmp/fido/fido_input_graph.1.txt'',
      Written ''/tmp/fido/fido_input_proteins.1.txt'',
      Invoked ''FidoChooseParameters''
        [''/tmp/fido/fido_input_graph.1.txt'', ''/tmp/fido/fido_input_proteins.1.txt'']
        (Finished [] []),
      Written ''/tmp/fido/fido_input_graph.2.txt'',
      Written ''/tmp/fido/fido_input_proteins.2.txt'',
      Invoked ''FidoChooseParameters''
        [''/tmp/fido/fido_input_graph.1.txt'', ''/tmp/fido/fido_input_proteins.1.txt'']
        (Finished [] []),
      Written ''out.idXML'',
      Removed ''/tmp/fido/'']"
  by code_simp

section \<open>Engine runs and the event log\<close>

lemma invocation_results_append:
  "invocation_results (xs @ ys) = invocation_results xs @ invocation_results ys"
  by (induction xs rule: invocation_results.induct) simp_all

lemma invocation_results_Warned: "invocation_results (map Warned ws) = []"
  by (induction ws) simp_all

lemma write_file_results:
  "invocation_results (events (write_file path content st)) = invocation_results (events st)"
  by (simp add: write_file_def invocation_results_append)

lemma write_file_fields:
  "peptides (write_file path content st) = peptides st"
  "fido_params (write_file path content st) = fido_params st"
  by (simp_all add: write_file_def)

lemma write_inputs_results:
  "write_inputs sa prob_param protein cp temp_dir counter st = (r, st1) \<Longrightarrow>
   invocation_results (events st1) = invocation_results (events st)"
  by (auto simp: write_inputs_def Let_def write_file_results invocation_results_append
      invocation_results_Warned split: prod.splits option.splits if_splits sum.splits)

lemma parse_parameter_search_results:
  "parse_parameter_search env debug temp_dir counter params_output st = (ok, st') \<Longrightarrow>
   invocation_results (events st') = invocation_results (events st)"
  by (auto simp: parse_parameter_search_def Let_def write_file_results invocation_results_append
      split: prod.splits if_splits)

lemma parse_parameter_search_flag:
  "fst (parse_parameter_search env debug temp_dir counter params_output st)
     = (\<not> exception_reported params_output)"
  by (auto simp: parse_parameter_search_def exception_reported_def Let_def split: prod.splits)

lemma runFido_aborted:
  "write_inputs sa prob_param protein cp temp_dir counter st = (Some e, st1) \<Longrightarrow>
   runFido env prob_param debug sa protein cp exe temp_dir keep counter st = (Inl e, protein, st1)"
  by (simp add: runFido_def)

lemma runFido_results:
  assumes "runFido env prob_param debug sa protein cp exe temp_dir keep counter st = (res, p', st')"
  shows "((\<exists>e. res = Inl e) \<and> invocation_results (events st') = invocation_results (events st)) \<or>
         (\<exists>r. invocation_results (events st') = invocation_results (events st) @ [r] \<and>
              (\<forall>b. res = Inr b \<longrightarrow> b = engine_succeeded cp r))"
proof -
  obtain w st1 where wi: "write_inputs sa prob_param protein cp temp_dir counter st = (w, st1)"
    by (cases "write_inputs sa prob_param protein cp temp_dir counter st") auto
  note r1 = write_inputs_results [OF wi]
  show ?thesis
  proof (cases w)
    case (Some e)
    with wi assms r1 show ?thesis by (auto simp: runFido_def)
  next
    case None
    let ?r = "engine env exe (fido_params st1) (files st1)"
    let ?st2 = "st1\<lparr>events := events st1 @ [Invoked exe (fido_params st1) ?r]\<rparr>"
    have r2: "invocation_results (events ?st2) = invocation_results (events st) @ [?r]"
      by (simp add: invocation_results_append r1)
    show ?thesis
    proof (cases ?r)
      case NotFinished
      with wi None assms have "res = Inr False" "st' = ?st2"
        by (auto simp: runFido_def Let_def)
      with r2 NotFinished show ?thesis by (auto simp: engine_succeeded_def)
    next
      case (Finished out params_output)
      obtain ok st3 where ps: "(if cp
            then parse_parameter_search env debug temp_dir counter params_output ?st2
            else (True, ?st2)) = (ok, st3)"
        by (metis prod.collapse)
      have r3: "invocation_results (events st3) = invocation_results (events st) @ [?r]"
      proof (cases cp)
        case True
        with ps parse_parameter_search_results [of env debug temp_dir counter params_output ?st2 ok st3] r2
        show ?thesis by simp
      next
        case False
        with ps r2 show ?thesis by auto
      qed
      have flag: "ok = (\<not> (cp \<and> exception_reported params_output))"
      proof (cases cp)
        case True
        with ps parse_parameter_search_flag [of env debug temp_dir counter params_output ?st2]
        show ?thesis by auto
      next
        case False
        with ps show ?thesis by auto
      qed
      show ?thesis
      proof (cases ok)
        case False
        with wi None assms Finished ps have "res = Inr False" "st' = st3"
          by (auto simp: runFido_def Let_def)
        with r3 Finished False flag show ?thesis by (auto simp: engine_succeeded_def)
      next
        case True
        let ?st4 = "if 1 < debug
              then write_file (temp_dir @ ''fido_output'' @ num_suffix counter @ ''.txt'')
                     (TextFile out) st3
              else st3"
        have r4: "invocation_results (events ?st4) = invocation_results (events st) @ [?r]"
          using r3 by (simp add: write_file_results)
        from wi None assms Finished ps True have "st' = ?st4 \<and> (\<forall>b. res = Inr b \<longrightarrow> b)"
          by (auto simp: runFido_def Let_def split: sum.splits prod.splits)
        with r4 Finished True flag show ?thesis by (auto simp: engine_succeeded_def)
      qed
    qed
  qed
qed

lemma gather_target_decoy_unlabelled:
  "\<exists>h \<in> set hs. unlabelled h \<Longrightarrow> \<exists>e. gather_target_decoy sa hs sets = Inl e"
proof (induction hs arbitrary: sets)
  case Nil
  then show ?case by simp
next
  case (Cons h hs)
  obtain targets decoys where s: "sets = (targets, decoys)" by (cases sets)
  show ?case
  proof (cases "unlabelled h")
    case True
    then show ?thesis unfolding s
      by (auto simp: unlabelled_def split: option.splits)
  next
    case False
    with Cons.prems have "\<exists>h \<in> set hs. unlabelled h" by simp
    from Cons.IH [OF this] show ?thesis unfolding s
      by (auto split: option.splits)
  qed
qed

lemma write_inputs_unlabelled:
  assumes "\<exists>h \<in> set (hits protein). unlabelled h"
  shows "\<exists>e st1. write_inputs sa prob_param protein True temp_dir counter st = (Some e, st1)"
proof -
  from gather_target_decoy_unlabelled [OF assms, of sa "([], [])"]
  obtain e where "writeProteinLists sa protein = Inl e"
    by (auto simp: writeProteinLists_def)
  then show ?thesis
    by (auto simp: write_inputs_def Let_def split: prod.splits option.splits)
qed


lemma separate_loop_unlabelled:
  assumes "choose_params_of opts"
  shows "k < length prots \<Longrightarrow> \<exists>h \<in> set (hits (prots ! k)). unlabelled h \<Longrightarrow>
   separate_loop env opts sa exe prots counter flag st = (res, prots', st') \<Longrightarrow>
   (\<exists>e. res = Inl e) \<and>
   (\<exists>rs. invocation_results (events st') = invocation_results (events st) @ rs \<and> length rs \<le> k)"
proof (induction prots arbitrary: k counter flag st res prots' st')
  case Nil
  then show ?case by simp
next
  case (Cons prot prots)
  obtain res1 p1 st1 where run:
    "runFido env (opt_prob_param opts) (debug_level opts) sa prot (choose_params_of opts)
       exe (temp_directory env) (keep_zero_group opts) counter st = (res1, p1, st1)"
    by (metis prod_cases3)
  show ?case
  proof (cases k)
    case 0
    with Cons.prems(2) have "\<exists>h \<in> set (hits prot). unlabelled h" by simp
    from write_inputs_unlabelled [OF this, of sa "opt_prob_param opts" "temp_directory env" counter st]
    obtain e st2 where wi: "write_inputs sa (opt_prob_param opts) prot True (temp_directory env)
        counter st = (Some e, st2)" by blast
    with assms have wi': "write_inputs sa (opt_prob_param opts) prot (choose_params_of opts)
        (temp_directory env) counter st = (Some e, st2)" by simp
    from runFido_aborted [OF wi'] run have "res1 = Inl e" "st1 = st2" by simp_all
    with run Cons.prems(3) have "res = Inl e" "st' = st2" by auto
    with write_inputs_results [OF wi'] show ?thesis by simp
  next
    case (Suc k')
    show ?thesis
    proof (cases res1)
      case (Inl e)
      with run Cons.prems(3) have "res = Inl e" "st' = st1" by auto
      moreover from runFido_results [OF run]
      have "\<exists>rs. invocation_results (events st1) = invocation_results (events st) @ rs \<and> length rs \<le> 1"
        by (metis append_Nil2 le_numeral_extra(4) length_Cons list.size(3) One_nat_def zero_le)
      ultimately show ?thesis using Suc by force
    next
      case (Inr ok)
      with run Cons.prems(3) obtain ps1 where
        rest: "separate_loop env opts sa exe prots (Suc counter) ok st1 = (res, ps1, st')"
        by (auto split: prod.splits)
      from runFido_results [OF run] Inr obtain r where
        r: "invocation_results (events st1) = invocation_results (events st) @ [r]" by auto
      from Cons.prems(1,2) Suc have "k' < length prots" "\<exists>h \<in> set (hits (prots ! k')). unlabelled h"
        by simp_all
      from Cons.IH [OF this rest] obtain e rs where
        "res = Inl e" "invocation_results (events st') = invocation_results (events st1) @ rs"
        "length rs \<le> k'" by blast
      with r Suc have "res = Inl e \<and>
          invocation_results (events st') = invocation_results (events st) @ (r # rs) \<and>
          length (r # rs) \<le> k" by simp
      then show ?thesis by blast
    qed
  qed
qed


lemma inference_unlabelled:
  assumes "choose_params_of opts" "proteins \<noteq> []"
    and "k < length (effective_runs opts proteins)"
    and "\<exists>h \<in> set (hits (effective_runs opts proteins ! k)). unlabelled h"
    and "inference env opts proteins st = (res, ps', st')"
  shows "(\<exists>e. res = Inl e) \<and>
     (\<exists>rs. invocation_results (events st') = invocation_results (events st) @ rs \<and> length rs \<le> k)"
proof (cases "separate_runs opts")
  case True
  with assms(5) have l: "separate_loop env opts (sanitize_accessions proteins) (executable env opts)
      proteins 1 False st = (res, ps', st')" by (simp add: inference_def)
  from assms(3,4) True have "k < length proteins" "\<exists>h \<in> set (hits (proteins ! k)). unlabelled h"
    by (simp_all add: effective_runs_def)
  from separate_loop_unlabelled [OF assms(1) this l] show ?thesis .
next
  case False
  show ?thesis
  proof (cases "1 < length proteins")
    case True
    let ?st1 = "st\<lparr>peptides := map (\<lambda>pep. pep\<lparr>pep_identifier := []\<rparr>) (peptides st)\<rparr>"
    from assms(3,4) False True have "\<exists>h \<in> set (hits (pooled_run proteins)). unlabelled h"
      by (simp add: effective_runs_def)
    from write_inputs_unlabelled [OF this, of "sanitize_accessions proteins" "opt_prob_param opts"
        "temp_directory env" 0 ?st1]
    obtain e st2 where wi: "write_inputs (sanitize_accessions proteins) (opt_prob_param opts)
        (pooled_run proteins) (choose_params_of opts) (temp_directory env) 0 ?st1 = (Some e, st2)"
      using assms(1) by auto
    from runFido_aborted [OF wi] assms(5) False True have "res = Inl e" "st' = st2"
      by (simp_all add: inference_def pooled_inference_def Let_def)
    with write_inputs_results [OF wi] show ?thesis by simp
  next
    case single: False
    from assms(2) obtain prot prots where p: "proteins = prot # prots" by (cases proteins) auto
    with single have "prots = []" by simp
    with assms(3,4) False single p have "\<exists>h \<in> set (hits prot). unlabelled h"
      by (simp add: effective_runs_def)
    from write_inputs_unlabelled [OF this, of "sanitize_accessions proteins" "opt_prob_param opts"
        "temp_directory env" 0 st]
    obtain e st2 where wi: "write_inputs (sanitize_accessions proteins) (opt_prob_param opts)
        prot (choose_params_of opts) (temp_directory env) 0 st = (Some e, st2)"
      using assms(1) by auto
    from runFido_aborted [OF wi] assms(5) False single p have "res = Inl e" "st' = st2"
      by (simp_all add: inference_def single_inference_def)
    with write_inputs_results [OF wi] show ?thesis by simp
  qed
qed

lemma main_unfold:
  assumes "proteins \<noteq> []" "peps \<noteq> []"
  shows "main env opts proteins peps =
     (case inference env opts proteins
             \<lparr>peptides = peps, fido_params = initial_fido_params env opts,
              prob_protein = opt_prob_protein opts, prob_peptide = opt_prob_peptide opts,
              prob_spurious = opt_prob_spurious opts, files = (\<lambda>path. None), events = []\<rparr> of
        (Inl e, proteins', st2) \<Rightarrow> (Inl e, st2)
      | (Inr fido_success, proteins', st2) \<Rightarrow>
          (let st3 = write_file (opt_out opts) (IdXML proteins' (peptides st2)) st2;
               st4 = (if 1 < debug_level opts then st3
                      else remove_temporary (temp_directory env) st3)
           in (Inr (if fido_success then EXECUTION_OK else EXTERNAL_PROGRAM_ERROR), st4)))"
  using assms by (simp add: main_def inference_def Let_def)


section \<open>Runs that end without an exception\<close>




















text \<open>
  Claim C9, as stated, fails: the target/decoy annotation is read by \<open>writeProteinLists\<close>
  only, which \<open>runFido\<close> calls in parameter-search mode only. With the three probabilities
  given, a run whose protein hit has no annotation is processed and the engine is started.
\<close>

theorem direct_mode_ignores_labels:
  "fst (main (example_env silent_engine) direct_options unannotated_run two_peptides) = Inr EXECUTION_OK \<and>
   invocations (events (snd (main (example_env silent_engine) direct_options unannotated_run two_peptides)))
     = [(''Fido'', [''/tmp/fido/fido_input_graph.txt'', ''0.9'', ''0.1'', ''0.01''])]"
  by code_simp

text \<open>
  Claim C9, amended. In parameter-search mode, if a protein hit of the \<open>k\<close>-th run that
  \<open>main_\<close> processes (counting from 0) has no target/decoy annotation, \<open>main_\<close> ends with an
  exception and the engine has been started at most \<open>k\<close> times: never for that run nor for
  a later one.
\<close>

theorem unlabelled_hit_aborts:
  assumes "choose_params_of opts" and "proteins \<noteq> []" and "peps \<noteq> []"
    and "k < length (effective_runs opts proteins)"
    and "\<exists>h \<in> set (hits (effective_runs opts proteins ! k)). unlabelled h"
  shows "(\<exists>e. fst (main env opts proteins peps) = Inl e) \<and>
         length (invocation_results (events (snd (main env opts proteins peps)))) \<le> k"
proof -
  let ?st1 = "\<lparr>peptides = peps, fido_params = initial_fido_params env opts,
              prob_protein = opt_prob_protein opts, prob_peptide = opt_prob_peptide opts,
              prob_spurious = opt_prob_spurious opts, files = (\<lambda>path. None), events = []\<rparr>"
  obtain res ps' st2 where inf: "inference env opts proteins ?st1 = (res, ps', st2)"
    by (metis prod_cases3)
  from inference_unlabelled [OF assms(1,2,4,5) inf] obtain e rs where
    "res = Inl e" "invocation_results (events st2) = rs" "length rs \<le> k" by auto
  with inf show ?thesis
    by (simp add: main_unfold [OF assms(2,3)])
qed

theorem unlabelled_hit_aborts_example:
  "(\<exists>e. fst (main (example_env silent_engine) default_options unannotated_run two_peptides) = Inl e) \<and>
   invocation_results
     (events (snd (main (example_env silent_engine) default_options unannotated_run two_peptides))) = []"
proof -
  have c: "choose_params_of default_options" by code_simp
  have n: "unannotated_run \<noteq> []" "two_peptides \<noteq> []" by code_simp+
  have k: "0 < length (effective_runs default_options unannotated_run)" by code_simp
  have u: "\<exists>h \<in> set (hits (effective_runs default_options unannotated_run ! 0)). unlabelled h"
    by code_simp
  from unlabelled_hit_aborts [OF c n k u, of "example_env silent_engine"]
  show ?thesis by simp
qed

section \<open>Decoding the engine output\<close>

lemma extract_word_next:
  assumes "w \<noteq> []" "\<forall>c \<in> set w. \<not> isspace c" "\<forall>c \<in> set sp. isspace c" "r = [] \<or> isspace (hd r)"
  shows "extract_word (sp @ w @ r) = Some (w, r)"
proof -
  from assms(1,2) have hw: "\<not> isspace (hd w)" by (cases w) auto
  have d: "dropWhile isspace (sp @ w @ r) = w @ r"
    using assms(1,3) hw by (cases w) (auto simp: dropWhile_append2)
  have t: "takeWhile (\<lambda>c. \<not> isspace c) (w @ r) = w"
    using assms(2,4) by (cases r) (auto simp: takeWhile_append2)
  have dr: "dropWhile (\<lambda>c. \<not> isspace c) (w @ r) = r"
    using assms(2,4) by (cases r) (auto simp: dropWhile_append2)
  from assms(1) d t dr show ?thesis by (simp add: extract_word_def Let_def)
qed

lemma extract_word_end: "extract_word [] = None"
  by (simp add: extract_word_def)

lemma space_chars: "isspace CHR '' ''" "\<not> isspace CHR '',''" "\<not> isspace CHR ''{''" "\<not> isspace CHR ''}''"
  by (simp_all add: isspace_def)

lemma extract_close: "extract_word '' }'' = Some (''}'', [])"
  using extract_word_next [of "''}''" "'' ''" "[]"] by (simp add: space_chars)

lemma extract_close2: "extract_word ''  }'' = Some (''}'', [])"
  using extract_word_next [of "''}''" "''  ''" "[]"] by (simp add: space_chars)

lemma extract_comma: "extract_word ('' , '' @ r) = Some ('','', '' '' @ r)"
  using extract_word_next [of "'',''" "'' ''" "'' '' @ r"] by (simp add: space_chars)

lemma extract_open: "extract_word ('' { '' @ r) = Some (''{'', '' '' @ r)"
  using extract_word_next [of "''{''" "'' ''" "'' '' @ r"] by (simp add: space_chars)

lemma extract_token:
  assumes "accession_token t" "r = [] \<or> isspace (hd r)"
  shows "extract_word ('' '' @ t @ r) = Some (t, r)"
proof -
  from assms(1) have "t \<noteq> []" "\<forall>c \<in> set t. \<not> isspace c"
    by (auto simp: accession_token_def)
  from extract_word_next [OF this _ assms(2), of "'' ''"] show ?thesis
    by (simp add: space_chars)
qed

lemma body_short: "length a \<le> 1 \<Longrightarrow> accession_body sa keep p a state = Inr (a, state)"
  by (cases state) (simp add: accession_body_def)

lemma body_token:
  assumes "accession_token t" "(keep \<or> p \<noteq> 0) \<longrightarrow> right_find sa t \<noteq> None"
  shows "accession_body sa keep p t (accs, z) =
     Inr (if p = 0 \<and> \<not> keep then t else desanitize sa t,
          accs @ (if p = 0 \<and> \<not> keep then [] else [desanitize sa t]),
          z + (if p = 0 then 1 else 0))"
  using assms
  by (auto simp: accession_body_def accession_token_def desanitize_def Let_def)

lemma loop_step:
  "extract_word u = Some (w, r) \<Longrightarrow> accession_body sa keep p w state = Inr (a', state') \<Longrightarrow>
   accession_loop sa keep p u a state = accession_loop sa keep p r a' state'"
  by (subst accession_loop.simps) simp

lemma loop_stop:
  "extract_word u = None \<Longrightarrow> accession_body sa keep p a state = Inr (a', state') \<Longrightarrow>
   accession_loop sa keep p u a state = Inr state'"
  by (subst accession_loop.simps) simp

text \<open>The end of a line: the closing brace is read, the next extraction fails.\<close>

lemma loop_close: "accession_loop sa keep p '' }'' a state = Inr state"
proof -
  have "accession_loop sa keep p '' }'' a state = accession_loop sa keep p [] ''}'' state"
    by (rule loop_step [OF extract_close]) (simp add: body_short)
  also have "\<dots> = Inr state"
    by (rule loop_stop [OF extract_word_end]) (simp add: body_short)
  finally show ?thesis .
qed

lemma loop_close2: "accession_loop sa keep p ''  }'' a state = Inr state"
proof -
  have "accession_loop sa keep p ''  }'' a state = accession_loop sa keep p [] ''}'' state"
    by (rule loop_step [OF extract_close2]) (simp add: body_short)
  also have "\<dots> = Inr state"
    by (rule loop_stop [OF extract_word_end]) (simp add: body_short)
  finally show ?thesis .
qed

lemma loop_tokens:
  assumes "ts \<noteq> []"
  shows "\<forall>t \<in> set ts. accession_token t \<Longrightarrow>
   (keep \<or> p \<noteq> 0) \<longrightarrow> (\<forall>t \<in> set ts. right_find sa t \<noteq> None) \<Longrightarrow>
   accession_loop sa keep p (rest_text ts) a (accs, z) =
     Inr (accs @ (if p = 0 \<and> \<not> keep then [] else map (desanitize sa) ts),
          z + (if p = 0 then length ts else 0))"
  using assms
proof (induction ts arbitrary: a accs z rule: list_nonempty_induct)
  case (single t)
  then have tok: "accession_token t" and reg: "(keep \<or> p \<noteq> 0) \<longrightarrow> right_find sa t \<noteq> None"
    by simp_all
  let ?a = "if p = 0 \<and> \<not> keep then t else desanitize sa t"
  let ?state = "(accs @ (if p = 0 \<and> \<not> keep then [] else [desanitize sa t]),
                 z + (if p = 0 then 1 else 0))"
  have shape: "rest_text [t] = '' '' @ t @ '' }''" by (simp add: rest_text_def)
  have ex: "extract_word ('' '' @ t @ '' }'') = Some (t, '' }'')"
    by (rule extract_token [OF tok]) (simp add: space_chars)
  have "accession_loop sa keep p (rest_text [t]) a (accs, z)
      = accession_loop sa keep p '' }'' ?a ?state"
    unfolding shape by (rule loop_step [OF ex body_token [OF tok reg]])
  then show ?case by (simp add: loop_close)
next
  case (cons t ts)
  then have tok: "accession_token t" and reg: "(keep \<or> p \<noteq> 0) \<longrightarrow> right_find sa t \<noteq> None"
    and toks: "\<forall>t \<in> set ts. accession_token t"
    and regs: "(keep \<or> p \<noteq> 0) \<longrightarrow> (\<forall>t \<in> set ts. right_find sa t \<noteq> None)"
    by simp_all
  let ?a = "if p = 0 \<and> \<not> keep then t else desanitize sa t"
  let ?accs = "accs @ (if p = 0 \<and> \<not> keep then [] else [desanitize sa t])"
  let ?z = "z + (if p = 0 then 1 else 0)"
  from cons.hyps obtain u us where ts: "ts = u # us" by (cases ts) auto
  have shape: "rest_text (t # ts) = '' '' @ t @ ('' , '' @ comma_separated ts @ '' }'')"
    by (simp add: rest_text_def ts)
  have ex: "extract_word ('' '' @ t @ ('' , '' @ comma_separated ts @ '' }''))
      = Some (t, '' , '' @ comma_separated ts @ '' }'')"
    by (rule extract_token [OF tok]) (simp add: space_chars)
  have ex2: "extract_word ('' , '' @ comma_separated ts @ '' }'') = Some ('','', rest_text ts)"
    using extract_comma [of "comma_separated ts @ '' }''"] by (simp add: rest_text_def)
  have "accession_loop sa keep p (rest_text (t # ts)) a (accs, z)
      = accession_loop sa keep p ('' , '' @ comma_separated ts @ '' }'') ?a (?accs, ?z)"
    unfolding shape by (rule loop_step [OF ex body_token [OF tok reg]])
  also have "\<dots> = accession_loop sa keep p (rest_text ts) '','' (?accs, ?z)"
    by (rule loop_step [OF ex2]) (simp add: body_short)
  also have "\<dots> = Inr (?accs @ (if p = 0 \<and> \<not> keep then [] else map (desanitize sa) ts),
          ?z + (if p = 0 then length ts else 0))"
    by (rule cons.IH [OF toks regs])
  finally show ?case by simp
qed

lemma loop_group:
  assumes "\<forall>t \<in> set ts. accession_token t"
    and "(keep \<or> p \<noteq> 0) \<longrightarrow> (\<forall>t \<in> set ts. right_find sa t \<noteq> None)"
  shows "accession_loop sa keep p (group_text ts) [] ([], z) =
     Inr (if p = 0 \<and> \<not> keep then [] else map (desanitize sa) ts,
          z + (if p = 0 then length ts else 0))"
proof -
  have ex: "extract_word (group_text ts) = Some (''{'', rest_text ts)"
    using extract_open [of "comma_separated ts @ '' }''"] by (simp add: group_text_def rest_text_def)
  have first: "accession_loop sa keep p (group_text ts) [] ([], z)
      = accession_loop sa keep p (rest_text ts) ''{'' ([], z)"
    by (rule loop_step [OF ex]) (simp add: body_short)
  show ?thesis
  proof (cases "ts = []")
    case True
    then show ?thesis unfolding first by (simp add: rest_text_def loop_close2)
  next
    case False
    from loop_tokens [OF False assms, of "''{''" "[]" z] show ?thesis
      unfolding first by simp
  qed
qed

lemma group_loop_listed:
  assumes "list_all2 (reads_as rd) lines gs"
  shows "\<forall>g \<in> set (listed_groups gs). (keep \<or> fst g \<noteq> 0) \<longrightarrow> (\<forall>t \<in> set (snd g). right_find sa t \<noteq> None) \<Longrightarrow>
     group_loop rd sa keep lines (groups, pc, z) =
       Inr (groups @ map (decoded_group sa) (filter (retained keep) (listed_groups gs)),
            pc + sum_list (map (\<lambda>g. length (snd g)) (filter (retained keep) (listed_groups gs))),
            z + sum_list (map (\<lambda>g. length (snd g)) (filter (\<lambda>g. fst g = 0) (listed_groups gs))))"
  using assms
proof (induction arbitrary: groups pc z rule: list_all2_induct)
  case Nil
  then show ?case by simp
next
  case (Cons l lines g gs)
  show ?case
  proof (cases g)
    case None
    with Cons.hyps(1) have "rd l = None" by (simp add: reads_as_def)
    moreover from Cons.prems None
    have "\<forall>g \<in> set (listed_groups gs). (keep \<or> fst g \<noteq> 0) \<longrightarrow> (\<forall>t \<in> set (snd g). right_find sa t \<noteq> None)"
      by simp
    ultimately show ?thesis using Cons.IH [of groups pc z] None by simp
  next
    case (Some pt)
    obtain p toks where pt: "pt = (p, toks)" by (cases pt)
    from Cons.hyps(1) Some pt have rd: "rd l = Some (p, group_text toks)"
      and tok: "\<forall>t \<in> set toks. accession_token t" by (simp_all add: reads_as_def)
    from Cons.prems Some pt have reg: "(keep \<or> p \<noteq> 0) \<longrightarrow> (\<forall>t \<in> set toks. right_find sa t \<noteq> None)"
      and regs: "\<forall>g \<in> set (listed_groups gs). (keep \<or> fst g \<noteq> 0) \<longrightarrow> (\<forall>t \<in> set (snd g). right_find sa t \<noteq> None)"
      by simp_all
    note lg = loop_group [OF tok reg, of z]
    show ?thesis
    proof (cases "retained keep (p, toks)")
      case True
      then have ne: "toks \<noteq> []" and k: "\<not> (p = 0 \<and> \<not> keep)" by (auto simp: retained_def)
      from Cons.IH [OF regs, of "groups @ [decoded_group sa (p, toks)]" "pc + length toks"
          "z + (if p = 0 then length toks else 0)"]
      show ?thesis using rd lg ne k True Some pt
        by (auto simp: decoded_group_def)
    next
      case False
      then have e: "(if p = 0 \<and> \<not> keep then [] else map (desanitize sa) toks) = []"
        by (auto simp: retained_def)
      from Cons.IH [OF regs, of groups pc "z + (if p = 0 then length toks else 0)"]
      show ?thesis using rd lg e False Some pt
        by auto
    qed
  qed
qed

lemma set_sort_groups: "set (sort_groups gs) = set gs"
  by (simp add: sort_groups_def)

lemma group_loop_sorted_accessions:
  "group_loop rd sa keep lines (groups, pc, z) = Inr (groups', pc', z') \<Longrightarrow>
   \<forall>g \<in> set groups. sorted (accessions g) \<Longrightarrow> \<forall>g \<in> set groups'. sorted (accessions g)"
proof (induction lines arbitrary: groups pc z)
  case Nil
  then show ?case by simp
next
  case (Cons l lines)
  show ?case
  proof (cases "rd l")
    case None
    with Cons.prems(1) have "group_loop rd sa keep lines (groups, pc, z) = Inr (groups', pc', z')"
      by simp
    from Cons.IH [OF this Cons.prems(2)] show ?thesis .
  next
    case (Some pu)
    obtain p unread where pu: "pu = (p, unread)" by (cases pu)
    from Cons.prems(1) Some pu obtain accs z1 where
      al: "accession_loop sa keep p unread [] ([], z) = Inr (accs, z1)"
      by (cases "accession_loop sa keep p unread [] ([], z)") auto
    show ?thesis
    proof (cases "accs = []")
      case True
      with Cons.prems(1) Some pu al
      have "group_loop rd sa keep lines (groups, pc, z1) = Inr (groups', pc', z')" by simp
      from Cons.IH [OF this Cons.prems(2)] show ?thesis .
    next
      case False
      with Cons.prems(1) Some pu al
      have "group_loop rd sa keep lines
              (groups @ [\<lparr>probability = p, accessions = sort accs\<rparr>], pc + length accs, z1)
            = Inr (groups', pc', z')" by simp
      moreover from Cons.prems(2)
      have "\<forall>g \<in> set (groups @ [\<lparr>probability = p, accessions = sort accs\<rparr>]). sorted (accessions g)"
        by simp
      ultimately show ?thesis by (rule Cons.IH)
    qed
  qed
qed

lemma parse_groups_ordered:
  assumes "parse_groups rd sa keep output = Inr (groups, pc, zc)"
  shows "sorted (map group_key groups) \<and> (\<forall>g \<in> set groups. sorted (accessions g))"
proof -
  from assms obtain gl where gl: "group_loop rd sa keep (split newline output) ([], 0, 0) = Inr (gl, pc, zc)"
    and g: "groups = sort_groups gl"
    by (auto simp: parse_groups_def split: sum.splits)
  from group_loop_sorted_accessions [OF gl] have "\<forall>g \<in> set gl. sorted (accessions g)" by simp
  with g show ?thesis by (simp add: sort_groups_def)
qed

lemma runFido_True:
  assumes "runFido env prob_param debug sa protein cp exe temp_dir keep counter st = (Inr True, protein', st')"
  shows "\<exists>out pc zc. parse_groups (read_probability env) sa keep out
           = Inr (indistinguishable_proteins protein', pc, zc)"
proof -
  obtain w st1 where wi: "write_inputs sa prob_param protein cp temp_dir counter st = (w, st1)"
    by (cases "write_inputs sa prob_param protein cp temp_dir counter st") auto
  from assms wi have w: "w = None" by (cases w) (auto simp: runFido_def)
  let ?r = "engine env exe (fido_params st1) (files st1)"
  from assms wi w obtain out err where r: "?r = Finished out err"
    by (cases ?r) (auto simp: runFido_def Let_def)
  from assms wi w r obtain groups pc zc where
    "parse_groups (read_probability env) sa keep out = Inr (groups, pc, zc)"
    "indistinguishable_proteins protein' = groups"
    by (auto simp: runFido_def Let_def split: prod.splits bool.splits sum.splits)
  then show ?thesis by auto
qed

text \<open>
  Claim C5. Let every line of the engine output either hold no number or list, after its
  probability, accession tokens in the wire format, and let the tokens that are looked up be
  registered. Then decoding succeeds; the zero-probability counter is the number of tokens
  listed in the groups of probability exactly 0; the groups decoded are the listed groups
  with at least one token, without those of probability 0 unless \<open>keep_zero_group\<close> is
  set, each with its accessions de-sanitised and sorted. So without the flag no decoded
  group has probability 0, and with it every listed zero-probability group appears,
  decoded like any other group.
\<close>

theorem zero_probability_policy:
  assumes "list_all2 (reads_as rd) (split newline output) gs"
    and "\<forall>g \<in> set (listed_groups gs).
           (keep \<or> fst g \<noteq> 0) \<longrightarrow> (\<forall>t \<in> set (snd g). right_find sa t \<noteq> None)"
  shows "\<exists>groups protein_counter zero_proteins.
      parse_groups rd sa keep output = Inr (groups, protein_counter, zero_proteins) \<and>
      zero_proteins
        = sum_list (map (\<lambda>g. length (snd g)) (filter (\<lambda>g. fst g = 0) (listed_groups gs))) \<and>
      groups = sort_groups (map (decoded_group sa)
                 (filter (\<lambda>g. snd g \<noteq> [] \<and> (keep \<or> fst g \<noteq> 0)) (listed_groups gs))) \<and>
      (\<not> keep \<longrightarrow> (\<forall>g \<in> set groups. probability g \<noteq> 0)) \<and>
      (keep \<longrightarrow> (\<forall>g \<in> set (listed_groups gs).
                   fst g = 0 \<and> snd g \<noteq> [] \<longrightarrow> decoded_group sa g \<in> set groups))"
proof -
  let ?kept = "filter (\<lambda>g. snd g \<noteq> [] \<and> (keep \<or> fst g \<noteq> 0)) (listed_groups gs)"
  let ?groups = "sort_groups (map (decoded_group sa) ?kept)"
  have r: "retained keep = (\<lambda>g. snd g \<noteq> [] \<and> (keep \<or> fst g \<noteq> 0))"
    by (rule ext) (simp add: retained_def)
  from group_loop_listed [OF assms(1) assms(2), of "[]" 0 0]
  have "parse_groups rd sa keep output =
      Inr (?groups, sum_list (map (\<lambda>g. length (snd g)) ?kept),
           sum_list (map (\<lambda>g. length (snd g)) (filter (\<lambda>g. fst g = 0) (listed_groups gs))))"
    by (simp add: parse_groups_def r)
  moreover have "\<forall>g \<in> set ?groups. probability g \<noteq> 0" if "\<not> keep"
    using that by (auto simp: set_sort_groups decoded_group_def)
  moreover have "\<forall>g \<in> set (listed_groups gs). fst g = 0 \<and> snd g \<noteq> [] \<longrightarrow> decoded_group sa g \<in> set ?groups"
    if keep
    using that by (auto simp: set_sort_groups)
  ultimately show ?thesis by blast
qed

theorem zero_probability_policy_example:
  "(\<exists>pc. parse_groups example_read_probability (sanitize_accessions two_runs) False example_output
      = Inr ([\<lparr>probability = 9 / 10, accessions = [''A'', ''C'']\<rparr>], pc, 2)) \<and>
   (\<exists>pc. parse_groups example_read_probability (sanitize_accessions two_runs) True example_output
      = Inr ([\<lparr>probability = 0, accessions = [''B'', ''D'']\<rparr>,
              \<lparr>probability = 9 / 10, accessions = [''A'', ''C'']\<rparr>], pc, 2))"
proof -
  let ?sa = "sanitize_accessions two_runs"
  have l: "list_all2 (reads_as example_read_probability) (split newline example_output) example_groups"
    by code_simp
  have r: "\<forall>g \<in> set (listed_groups example_groups).
      (keep \<or> fst g \<noteq> 0) \<longrightarrow> (\<forall>t \<in> set (snd g). right_find ?sa t \<noteq> None)" for keep
    by (cases keep) code_simp+
  have z: "sum_list (map (\<lambda>g. length (snd g)) (filter (\<lambda>g. fst g = 0) (listed_groups example_groups))) = 2"
    by code_simp
  have g0: "sort_groups (map (decoded_group ?sa)
      (filter (\<lambda>g. snd g \<noteq> [] \<and> (False \<or> fst g \<noteq> 0)) (listed_groups example_groups)))
      = [\<lparr>probability = 9 / 10, accessions = [''A'', ''C'']\<rparr>]"
    by code_simp
  have g1: "sort_groups (map (decoded_group ?sa)
      (filter (\<lambda>g. snd g \<noteq> [] \<and> (True \<or> fst g \<noteq> 0)) (listed_groups example_groups)))
      = [\<lparr>probability = 0, accessions = [''B'', ''D'']\<rparr>,
         \<lparr>probability = 9 / 10, accessions = [''A'', ''C'']\<rparr>]"
    by code_simp
  from zero_probability_policy [OF l r [of False]] zero_probability_policy [OF l r [of True]]
  show ?thesis
    unfolding z g0 g1 by blast
qed

text \<open>
  Claim C6. Whenever \<open>runFido\<close> returns \<open>true\<close>, the groups it has attached to the run are
  in ascending order of probability, groups of equal probability in the lexicographic order
  of their accession lists, and the accessions of every group are sorted. The comparison of
  groups is the one modelled from the spec.
\<close>

theorem groups_ordered:
  assumes "runFido env prob_param debug sa protein cp exe temp_dir keep counter st
             = (Inr True, protein', st')"
  shows "sorted_wrt (\<lambda>g h. probability g < probability h \<or>
                          (probability g = probability h \<and> accessions g \<le> accessions h))
           (indistinguishable_proteins protein') \<and>
         (\<forall>g \<in> set (indistinguishable_proteins protein'). sorted (accessions g))"
proof -
  from runFido_True [OF assms] obtain out pc zc where
    "parse_groups (read_probability env) sa keep out = Inr (indistinguishable_proteins protein', pc, zc)"
    by blast
  from parse_groups_ordered [OF this]
  have s: "sorted (map group_key (indistinguishable_proteins protein'))"
    and a: "\<forall>g \<in> set (indistinguishable_proteins protein'). sorted (accessions g)" by simp_all
  have "(group_key g \<le> group_key h) =
      (probability g < probability h \<or> (probability g = probability h \<and> accessions g \<le> accessions h))"
    for g h
    by (auto simp: group_key_def)
  with s have "sorted_wrt (\<lambda>g h. probability g < probability h \<or>
      (probability g = probability h \<and> accessions g \<le> accessions h))
      (indistinguishable_proteins protein')"
    by (simp add: sorted_map)
  with a show ?thesis by simp
qed

theorem groups_ordered_example:
  "fst (runFido (example_env printing_engine) [] 0 (sanitize_accessions two_runs) (two_runs ! 0)
          False ''Fido'' ''/tmp/fido/'' True 0 example_state) = Inr True \<and>
   indistinguishable_proteins
     (fst (snd (runFido (example_env printing_engine) [] 0 (sanitize_accessions two_runs) (two_runs ! 0)
          False ''Fido'' ''/tmp/fido/'' True 0 example_state)))
     = [\<lparr>probability = 0, accessions = [''B'', ''D'']\<rparr>,
        \<lparr>probability = 9 / 10, accessions = [''A'', ''C'']\<rparr>] \<and>
   sorted_wrt (\<lambda>g h. probability g < probability h \<or>
                     (probability g = probability h \<and> accessions g \<le> accessions h))
     (indistinguishable_proteins
       (fst (snd (runFido (example_env printing_engine) [] 0 (sanitize_accessions two_runs) (two_runs ! 0)
          False ''Fido'' ''/tmp/fido/'' True 0 example_state))))"
proof -
  let ?run = "runFido (example_env printing_engine) [] 0 (sanitize_accessions two_runs) (two_runs ! 0)
          False ''Fido'' ''/tmp/fido/'' True 0 example_state"
  have f: "fst ?run = Inr True" by code_simp
  then have "?run = (Inr True, fst (snd ?run), snd (snd ?run))"
    by (metis prod.collapse)
  from groups_ordered [OF this]
  have s: "sorted_wrt (\<lambda>g h. probability g < probability h \<or>
                     (probability g = probability h \<and> accessions g \<le> accessions h))
     (indistinguishable_proteins (fst (snd ?run)))" by blast
  have v: "indistinguishable_proteins (fst (snd ?run))
     = [\<lparr>probability = 0, accessions = [''B'', ''D'']\<rparr>,
        \<lparr>probability = 9 / 10, accessions = [''A'', ''C'']\<rparr>]" by code_simp
  from f v s show ?thesis by blast
qed

end
